theory Spec2Isabelle
  imports Complex_Main "HOL-Library.Word" "HOL-Library.Monad_Syntax"
begin

section \<open>Pixel buffers\<close>

text \<open>
  An image is an interleaved RGBA byte buffer (\<open>uint8_t *\<close>), addressed as
  \<open>buf[(x + y*width)*4 + c]\<close>.  C++ gives no meaning to an access outside the buffer, so
  a read or a write at an index outside the buffer is the value \<open>None\<close>, and every
  function that touches a buffer returns an option.  Dimensions and indices are C \<open>int\<close>;
  they are modelled as unbounded integers (the buffers are allocated with the same
  \<open>int\<close> expression \<open>w*h*4\<close> that addresses them).
\<close>

type_synonym u8 = "8 word"
type_synonym buffer = "u8 list"

definition rd :: "buffer \<Rightarrow> int \<Rightarrow> u8 option" where
  "rd buf k = (if 0 \<le> k \<and> k < int (length buf) then Some (buf ! nat k) else None)"

definition wr :: "buffer \<Rightarrow> int \<Rightarrow> u8 \<Rightarrow> buffer option" where
  "wr buf k v = (if 0 \<le> k \<and> k < int (length buf) then Some (buf[nat k := v]) else None)"

section \<open>Counted loops\<close>

text \<open>
  \<open>for (int i = lo; i < n; i++) body\<close>, with the loop's state threaded through the body.
  The body may fail (an access outside a buffer), which ends the loop.
\<close>

function for_loop :: "int \<Rightarrow> int \<Rightarrow> (int \<Rightarrow> 's \<Rightarrow> 's option) \<Rightarrow> 's \<Rightarrow> 's option" where
  "for_loop i n body s =
     (if i < n then (case body i s of None \<Rightarrow> None | Some s' \<Rightarrow> for_loop (i + 1) n body s')
      else Some s)"
  by pat_completeness auto
termination
  by (relation "measure (\<lambda>(i, n, body, s). nat (n - i))") auto

declare for_loop.simps [simp del]

section \<open>Host arithmetic\<close>

text \<open>
  \<open>runReference\<close> computes in \<open>float\<close>, with \<open>sqrt\<close>, \<open>exp\<close> and \<open>pow\<close> of the C library.
  The operations are a parameter of the model: a record of functions over a type \<open>'f\<close> of
  floating-point values.  What is proved for every such record holds whatever the
  platform's rounding is, and whichever overloads of the library functions the compiler
  picks (a widening to \<open>double\<close> and the narrowing back are part of the operation).  Each
  operation is a function of its arguments.  Where a property depends on the rounding
  itself, the record is instantiated: with the exact reals (\<open>real_arith\<close>) and with IEEE
  754 binary32 (\<open>binary32\<close>, section ``Single precision'').
  \<^item> \<open>fof_int\<close> is the conversion \<open>(float)n\<close>; the literals \<open>0.f\<close>, \<open>1.f\<close> and \<open>255.f\<close> are
    \<open>fof_int 0\<close>, \<open>fof_int 1\<close> and \<open>fof_int 255\<close>;
  \<^item> \<open>mhalf\<close> is the literal \<open>-0.5f\<close>, and \<open>fless\<close> is the comparison \<open><\<close>;
  \<^item> \<open>fto_u8\<close> is the cast \<open>(uint8_t)v\<close>, which C++ defines as truncation towards zero
    when the truncated value fits into 8 bits and leaves undefined otherwise; the model
    takes the platform's conversion to be a function there too.
\<close>

record 'f arith =
  fadd :: "'f \<Rightarrow> 'f \<Rightarrow> 'f"
  fsub :: "'f \<Rightarrow> 'f \<Rightarrow> 'f"
  fmul :: "'f \<Rightarrow> 'f \<Rightarrow> 'f"
  fdiv :: "'f \<Rightarrow> 'f \<Rightarrow> 'f"
  fsqrt :: "'f \<Rightarrow> 'f"
  fexp :: "'f \<Rightarrow> 'f"
  fpow :: "'f \<Rightarrow> int \<Rightarrow> 'f"
  fless :: "'f \<Rightarrow> 'f \<Rightarrow> bool"
  fof_int :: "int \<Rightarrow> 'f"
  mhalf :: "'f"
  fto_u8 :: "'f \<Rightarrow> u8"

text \<open>\<open>std::max(a, b)\<close> is \<open>(a < b) ? b : a\<close> and \<open>std::min(a, b)\<close> is \<open>(b < a) ? b : a\<close>.\<close>

definition std_max :: "'f arith \<Rightarrow> 'f \<Rightarrow> 'f \<Rightarrow> 'f" where
  "std_max ops a b = (if fless ops a b then b else a)"

definition std_min :: "'f arith \<Rightarrow> 'f \<Rightarrow> 'f \<Rightarrow> 'f" where
  "std_min ops a b = (if fless ops b a then b else a)"

section \<open>The reference filter\<close>

text \<open>\<open>input[k]/255.f\<close>: the byte is promoted to \<open>int\<close>, converted and divided.\<close>

definition normalise :: "'f arith \<Rightarrow> u8 \<Rightarrow> 'f" where
  "normalise ops v = fdiv ops (fof_int ops (uint v)) (fof_int ops 255)"

text \<open>The accumulators \<open>coeff\<close>, \<open>sr\<close>, \<open>sg\<close>, \<open>sb\<close> of one output pixel.\<close>

record 'f acc =
  coeff :: 'f
  sr :: 'f
  sg :: 'f
  sb :: 'f

text \<open>
  The coordinates \<open>_x\<close>, \<open>_y\<close> sampled for offset \<open>(i, j)\<close> of pixel \<open>(x, y)\<close>, and the
  normalised sample \<open>(r, g, b)\<close> read there.
\<close>

definition sample_xy :: "int \<Rightarrow> int \<Rightarrow> int \<Rightarrow> int \<Rightarrow> int \<Rightarrow> int \<Rightarrow> int \<times> int" where
  "sample_xy width height x y i j =
     (min (max (x + i) 0) (width - 1), min (max (y + j) 0) (height - 1))"

definition sample :: "'f arith \<Rightarrow> buffer \<Rightarrow> int \<Rightarrow> int \<Rightarrow> int \<Rightarrow> int \<Rightarrow> int \<Rightarrow> int
    \<Rightarrow> ('f \<times> 'f \<times> 'f) option" where
  "sample ops input width height x y i j =
     (case sample_xy width height x y i j of (x', y') \<Rightarrow>
        do {
          r \<leftarrow> rd input ((x' + y' * width) * 4 + 0);
          g \<leftarrow> rd input ((x' + y' * width) * 4 + 1);
          b \<leftarrow> rd input ((x' + y' * width) * 4 + 2);
          Some (normalise ops r, normalise ops g, normalise ops b)
        })"

text \<open>The weight of a sample: the domain factor, then the range factor multiplied in.\<close>

definition weight_of :: "'f arith \<Rightarrow> 'f \<Rightarrow> 'f \<Rightarrow> int \<Rightarrow> int \<Rightarrow> 'f \<times> 'f \<times> 'f \<Rightarrow> 'f \<times> 'f \<times> 'f \<Rightarrow> 'f" where
  "weight_of ops sigmaDomain sigmaRange i j s c =
     (case s of (r, g, b) \<Rightarrow> case c of (cr, cg, cb) \<Rightarrow>
        let norm = fmul ops (fsqrt ops (fadd ops (fof_int ops (i * i)) (fof_int ops (j * j))))
                     (fdiv ops (fof_int ops 1) sigmaDomain);
            weight = fexp ops (fmul ops (mhalf ops) (fmul ops norm norm));
            norm' = fmul ops
                      (fsqrt ops (fadd ops (fadd ops (fpow ops (fsub ops r cr) 2)
                                                     (fpow ops (fsub ops g cg) 2))
                                           (fpow ops (fsub ops b cb) 2)))
                      (fdiv ops (fof_int ops 1) sigmaRange)
        in fmul ops weight (fexp ops (fmul ops (mhalf ops) (fmul ops norm' norm'))))"

text \<open>The body of the two inner loops, lines 339 to 357.\<close>

definition accumulate :: "'f arith \<Rightarrow> 'f \<Rightarrow> 'f \<Rightarrow> buffer \<Rightarrow> int \<Rightarrow> int \<Rightarrow> int \<Rightarrow> int
    \<Rightarrow> 'f \<times> 'f \<times> 'f \<Rightarrow> int \<Rightarrow> int \<Rightarrow> 'f acc \<Rightarrow> 'f acc option" where
  "accumulate ops sigmaDomain sigmaRange input width height x y c j i a =
     do {
       s \<leftarrow> sample ops input width height x y i j;
       let weight = weight_of ops sigmaDomain sigmaRange i j s c;
       Some \<lparr> coeff = fadd ops (coeff a) weight,
              sr = fadd ops (sr a) (fmul ops weight (fst s)),
              sg = fadd ops (sg a) (fmul ops weight (fst (snd s))),
              sb = fadd ops (sb a) (fmul ops weight (snd (snd s))) \<rparr>
     }"

text \<open>
  The loops \<open>for (int j = -2; j <= 2; j++) for (int i = -2; i <= 2; i++)\<close>, from zeroed
  accumulators (\<open>j <= 2\<close> is \<open>j < 3\<close>).
\<close>

definition neighbourhood :: "'f arith \<Rightarrow> 'f \<Rightarrow> 'f \<Rightarrow> buffer \<Rightarrow> int \<Rightarrow> int \<Rightarrow> int \<Rightarrow> int
    \<Rightarrow> 'f \<times> 'f \<times> 'f \<Rightarrow> 'f acc option" where
  "neighbourhood ops sigmaDomain sigmaRange input width height x y c =
     for_loop (- 2) 3
       (\<lambda>j. for_loop (- 2) 3 (accumulate ops sigmaDomain sigmaRange input width height x y c j))
       \<lparr> coeff = fof_int ops 0, sr = fof_int ops 0, sg = fof_int ops 0, sb = fof_int ops 0 \<rparr>"

text \<open>\<open>(uint8_t)(std::min(std::max(s/coeff, 0.f), 1.f)*255.f)\<close>\<close>

definition quantise :: "'f arith \<Rightarrow> 'f \<Rightarrow> 'f \<Rightarrow> u8" where
  "quantise ops s k =
     fto_u8 ops (fmul ops (std_min ops (std_max ops (fdiv ops s k) (fof_int ops 0)) (fof_int ops 1))
                          (fof_int ops 255))"

text \<open>The body of the loop over \<open>x\<close>: one output pixel, lines 326 to 363.\<close>

definition pixel :: "'f arith \<Rightarrow> 'f \<Rightarrow> 'f \<Rightarrow> buffer \<Rightarrow> int \<Rightarrow> int \<Rightarrow> int \<Rightarrow> int
    \<Rightarrow> buffer \<Rightarrow> buffer option" where
  "pixel ops sigmaDomain sigmaRange input width height y x output =
     do {
       cr \<leftarrow> rd input ((x + y * width) * 4 + 0);
       cg \<leftarrow> rd input ((x + y * width) * 4 + 1);
       cb \<leftarrow> rd input ((x + y * width) * 4 + 2);
       a \<leftarrow> neighbourhood ops sigmaDomain sigmaRange input width height x y
              (normalise ops cr, normalise ops cg, normalise ops cb);
       out0 \<leftarrow> wr output ((x + y * width) * 4 + 0) (quantise ops (sr a) (coeff a));
       out1 \<leftarrow> wr out0 ((x + y * width) * 4 + 1) (quantise ops (sg a) (coeff a));
       out2 \<leftarrow> wr out1 ((x + y * width) * 4 + 2) (quantise ops (sb a) (coeff a));
       alpha \<leftarrow> rd input ((x + y * width) * 4 + 3);
       wr out2 ((x + y * width) * 4 + 3) alpha
     }"

text \<open>
  \<open>runReference\<close>: the loops over \<open>y\<close> and \<open>x\<close>.  \<open>sigmaDomain\<close> and \<open>sigmaRange\<close> are
  globals of the program, here arguments; \<open>output\<close> is the buffer as the caller hands it
  over (in \<open>main\<close>, freshly allocated and not initialised).
\<close>

definition runReference :: "'f arith \<Rightarrow> 'f \<Rightarrow> 'f \<Rightarrow> buffer \<Rightarrow> buffer \<Rightarrow> int \<Rightarrow> int \<Rightarrow> buffer option" where
  "runReference ops sigmaDomain sigmaRange input output width height =
     for_loop 0 height
       (\<lambda>y. for_loop 0 width (pixel ops sigmaDomain sigmaRange input width height y))
       output"

text \<open>
  What \<open>pixel\<close> stores for channel \<open>c\<close> of pixel \<open>(x, y)\<close> (the same reads, the same
  neighbourhood loops and the same conversion), and the byte it stores at index \<open>k\<close> of
  the output.  \<open>written \<dots> p out\<close> says that \<open>out\<close> is \<open>out0\<close> with the first \<open>p\<close> pixels
  stored: the invariant of the loops of \<open>runReference\<close>.
\<close>

definition reference_byte :: "'f arith \<Rightarrow> 'f \<Rightarrow> 'f \<Rightarrow> buffer \<Rightarrow> int \<Rightarrow> int \<Rightarrow> int \<Rightarrow> int \<Rightarrow> int
    \<Rightarrow> u8 option" where
  "reference_byte ops sigmaDomain sigmaRange input width height x y c =
     (if c = 3 then rd input ((x + y * width) * 4 + 3)
      else do {
        cr \<leftarrow> rd input ((x + y * width) * 4 + 0);
        cg \<leftarrow> rd input ((x + y * width) * 4 + 1);
        cb \<leftarrow> rd input ((x + y * width) * 4 + 2);
        a \<leftarrow> neighbourhood ops sigmaDomain sigmaRange input width height x y
               (normalise ops cr, normalise ops cg, normalise ops cb);
        Some (quantise ops (if c = 0 then sr a else if c = 1 then sg a else sb a) (coeff a))
      })"

definition image_byte :: "'f arith \<Rightarrow> 'f \<Rightarrow> 'f \<Rightarrow> buffer \<Rightarrow> int \<Rightarrow> int \<Rightarrow> int \<Rightarrow> u8 option" where
  "image_byte ops sigmaDomain sigmaRange input width height k =
     reference_byte ops sigmaDomain sigmaRange input width height
       ((k div 4) mod width) ((k div 4) div width) (k mod 4)"

definition written :: "'f arith \<Rightarrow> 'f \<Rightarrow> 'f \<Rightarrow> buffer \<Rightarrow> int \<Rightarrow> int \<Rightarrow> buffer \<Rightarrow> int \<Rightarrow> buffer \<Rightarrow> bool" where
  "written ops sigmaDomain sigmaRange input width height out0 p out \<longleftrightarrow>
     length out = length out0 \<and>
     (\<forall>k. rd out k = (if 0 \<le> k \<and> k < 4 * p
                      then image_byte ops sigmaDomain sigmaRange input width height k
                      else rd out0 k))"

text \<open>One round of the inner loop as a function of the accumulators, for the loops as folds.\<close>

definition acc_step :: "'f arith \<Rightarrow> ('o \<Rightarrow> 'f) \<Rightarrow> ('o \<Rightarrow> int \<Rightarrow> 'f) \<Rightarrow> 'f acc \<Rightarrow> 'o \<Rightarrow> 'f acc" where
  "acc_step ops W S a off =
     \<lparr> coeff = fadd ops (coeff a) (W off),
       sr = fadd ops (sr a) (fmul ops (W off) (S off 0)),
       sg = fadd ops (sg a) (fmul ops (W off) (S off 1)),
       sb = fadd ops (sb a) (fmul ops (W off) (S off 2)) \<rparr>"

section \<open>The filter as the specification words it\<close>

text \<open>
  The specification's formula for one output channel, written with the operations of the
  arithmetic record: the sum over the 25 offsets of weight times sample, divided by the sum
  of the weights, clamped to \<open>[0, 1]\<close>, times 255, converted to a byte.  Coordinates are
  clamped to \<open>[0, W-1]\<close> and \<open>[0, H-1]\<close>; the weight is
  \<open>exp(-0.5 * (sqrt(i*i + j*j) / sigmaDomain)\<^sup>2) * exp(-0.5 * (distance / sigmaRange)\<^sup>2)\<close>
  with the Euclidean distance of the normalised sample from the normalised centre.
\<close>

definition spec_clamp :: "int \<Rightarrow> int \<Rightarrow> int \<Rightarrow> int" where
  "spec_clamp lo hi v = (if v < lo then lo else if hi < v then hi else v)"

definition spec_offsets :: "(int \<times> int) list" where
  "spec_offsets = concat (map (\<lambda>j. map (\<lambda>i. (i, j)) [- 2..2]) [- 2..2])"

definition spec_sample :: "'f arith \<Rightarrow> buffer \<Rightarrow> int \<Rightarrow> int \<Rightarrow> int \<Rightarrow> int \<Rightarrow> int \<times> int \<Rightarrow> int \<Rightarrow> 'f" where
  "spec_sample ops input w h x y off c =
     (case off of (i, j) \<Rightarrow>
        fdiv ops
          (fof_int ops (uint (input ! nat ((spec_clamp 0 (w - 1) (x + i)
                                           + spec_clamp 0 (h - 1) (y + j) * w) * 4 + c))))
          (fof_int ops 255))"





definition spec_clamp_unit :: "'f arith \<Rightarrow> 'f \<Rightarrow> 'f" where
  "spec_clamp_unit ops q =
     (if fless ops q (fof_int ops 0) then fof_int ops 0
      else if fless ops (fof_int ops 1) q then fof_int ops 1 else q)"







text \<open>Exact arithmetic on the reals: the instance of the record in which nothing rounds.\<close>

definition real_arith :: "real arith" where
  "real_arith =
     \<lparr> fadd = (+), fsub = (-), fmul = (*), fdiv = (/), fsqrt = sqrt, fexp = exp,
       fpow = (\<lambda>a n. a powi n), fless = (<), fof_int = of_int, mhalf = - (1 / 2),
       fto_u8 = (\<lambda>v. word_of_int (if 0 \<le> v then \<lfloor>v\<rfloor> else \<lceil>v\<rceil>)) \<rparr>"

section \<open>The neighbourhood as a fold\<close>

text \<open>
  The weight that the loops give the sample at offset \<open>(i, j)\<close> of pixel \<open>(x, y)\<close>, for a
  centre \<open>c\<close>; the centre \<open>(cr, cg, cb)\<close> that \<open>pixel\<close> reads for \<open>(x, y)\<close>; and the zeroed
  accumulators.  With them the two loops over \<open>j\<close> and \<open>i\<close> are one fold over the list of
  offsets.
\<close>

definition sample_weight :: "'f arith \<Rightarrow> 'f \<Rightarrow> 'f \<Rightarrow> buffer \<Rightarrow> int \<Rightarrow> int \<Rightarrow> int \<Rightarrow> int
    \<Rightarrow> 'f \<times> 'f \<times> 'f \<Rightarrow> int \<times> int \<Rightarrow> 'f" where
  "sample_weight ops sigmaDomain sigmaRange input w h x y c off =
     (case off of (i, j) \<Rightarrow>
        weight_of ops sigmaDomain sigmaRange i j
          (spec_sample ops input w h x y (i, j) 0, spec_sample ops input w h x y (i, j) 1,
           spec_sample ops input w h x y (i, j) 2) c)"

definition centre_sample :: "'f arith \<Rightarrow> buffer \<Rightarrow> int \<Rightarrow> int \<Rightarrow> int \<Rightarrow> 'f \<times> 'f \<times> 'f" where
  "centre_sample ops input w x y =
     (normalise ops (input ! nat ((x + y * w) * 4 + 0)),
      normalise ops (input ! nat ((x + y * w) * 4 + 1)),
      normalise ops (input ! nat ((x + y * w) * 4 + 2)))"

definition zero_acc :: "'f arith \<Rightarrow> 'f acc" where
  "zero_acc ops = \<lparr> coeff = fof_int ops 0, sr = fof_int ops 0, sg = fof_int ops 0, sb = fof_int ops 0 \<rparr>"

section \<open>Flat images\<close>

text \<open>
  An image is flat when the three colour bytes of every pixel hold the same value \<open>v\<close>
  (alpha is free).  Then every sample and every centre is \<open>(n, n, n)\<close> with \<open>n\<close> the
  normalised \<open>v\<close>: \<open>flat_weight\<close> is the weight of offset \<open>(i, j)\<close> and \<open>flat_byte\<close> the byte
  that the code stores in each colour channel, the same for all pixels.
\<close>

definition flat_image :: "buffer \<Rightarrow> int \<Rightarrow> int \<Rightarrow> u8 \<Rightarrow> bool" where
  "flat_image input w h v \<longleftrightarrow>
     (\<forall>p c. 0 \<le> p \<and> p < w * h \<and> 0 \<le> c \<and> c < 3 \<longrightarrow> input ! nat (p * 4 + c) = v)"

definition flat_weight :: "'f arith \<Rightarrow> 'f \<Rightarrow> 'f \<Rightarrow> u8 \<Rightarrow> int \<times> int \<Rightarrow> 'f" where
  "flat_weight ops sigmaDomain sigmaRange v off =
     (case off of (i, j) \<Rightarrow>
        weight_of ops sigmaDomain sigmaRange i j
          (normalise ops v, normalise ops v, normalise ops v)
          (normalise ops v, normalise ops v, normalise ops v))"

definition flat_byte :: "'f arith \<Rightarrow> 'f \<Rightarrow> 'f \<Rightarrow> u8 \<Rightarrow> u8" where
  "flat_byte ops sigmaDomain sigmaRange v =
     quantise ops
       (foldl (fadd ops) (fof_int ops 0)
          (map (\<lambda>off. fmul ops (flat_weight ops sigmaDomain sigmaRange v off) (normalise ops v))
               spec_offsets))
       (foldl (fadd ops) (fof_int ops 0) (map (flat_weight ops sigmaDomain sigmaRange v) spec_offsets))"

section \<open>Single precision\<close>

text \<open>
  The arithmetic record at IEEE 754 binary32, for the properties that depend on how
  \<open>float\<close> rounds.  A value is finite with a sign and a magnitude (the sign is \<open>True\<close> for
  minus, which keeps \<open>+0\<close> and \<open>-0\<close> apart), infinite with a sign, or NaN.  \<open>rnd32\<close> rounds
  a nonnegative real to the nearest magnitude of the format, ties to even: 24 significant
  bits from \<open>2^(-126)\<close> on, the multiples of \<open>2^(-149)\<close> below; \<open>mk\<close> gives infinity when the
  rounded magnitude reaches \<open>2^128\<close>.

  Each operation is the exact result rounded once, with the special cases of the
  standard: \<open>x/0\<close> is infinite for \<open>x \<noteq> 0\<close>, and \<open>0/0\<close>, \<open>0 * inf\<close>, \<open>inf - inf\<close> and the
  square root of a negative number are NaN, which every operation propagates and every
  comparison answers with false.  For \<open>+\<close>, \<open>-\<close>, \<open>*\<close>, \<open>/\<close>, \<open>sqrt\<close> and the conversion
  from \<open>int\<close> this is what the standard prescribes.  Three things are taken of the
  platform: that the library calls are computed in \<open>float\<close> (the \<open>float\<close> overloads of
  \<open>sqrt\<close>, \<open>exp\<close> and \<open>pow\<close>), that \<open>exp\<close> is correctly rounded, and that \<open>pow(a, 2)\<close> is
  \<open>a*a\<close> rounded once.  The cast \<open>(uint8_t)v\<close> truncates towards zero; for a value that
  does not fit (undefined in C++) the model takes the truncation modulo 256, and 0 for
  an infinity or NaN.
\<close>

datatype f32 = Fin bool real | Inf bool | NaN

definition pow2 :: "int \<Rightarrow> real" where
  "pow2 e = (if 0 \<le> e then 2 ^ nat e else 1 / 2 ^ nat (- e))"

definition rne :: "real \<Rightarrow> int" where
  "rne x = (if x - of_int \<lfloor>x\<rfloor> < 1 / 2 then \<lfloor>x\<rfloor>
            else if 1 / 2 < x - of_int \<lfloor>x\<rfloor> then \<lfloor>x\<rfloor> + 1
            else if even \<lfloor>x\<rfloor> then \<lfloor>x\<rfloor> else \<lfloor>x\<rfloor> + 1)"

definition expo32 :: "real \<Rightarrow> int" where
  "expo32 r = max \<lfloor>log 2 r\<rfloor> (- 126)"

definition rnd32 :: "real \<Rightarrow> real" where
  "rnd32 r = of_int (rne (r / pow2 (expo32 r - 23))) * pow2 (expo32 r - 23)"

definition mk :: "bool \<Rightarrow> real \<Rightarrow> f32" where
  "mk s r = (if rnd32 r < 2 ^ 128 then Fin s (rnd32 r) else Inf s)"

definition val :: "bool \<Rightarrow> real \<Rightarrow> real" where
  "val s m = (if s then - \<bar>m\<bar> else \<bar>m\<bar>)"

fun b32_add :: "f32 \<Rightarrow> f32 \<Rightarrow> f32" where
  "b32_add (Fin s m) (Fin t n) =
     (if val s m + val t n = 0 then Fin (s \<and> t) 0
      else mk (val s m + val t n < 0) \<bar>val s m + val t n\<bar>)"
| "b32_add (Fin s m) (Inf t) = Inf t"
| "b32_add (Inf s) (Fin t n) = Inf s"
| "b32_add (Inf s) (Inf t) = (if s = t then Inf s else NaN)"
| "b32_add _ _ = NaN"

fun b32_neg :: "f32 \<Rightarrow> f32" where
  "b32_neg (Fin s m) = Fin (\<not> s) m"
| "b32_neg (Inf s) = Inf (\<not> s)"
| "b32_neg NaN = NaN"

definition b32_sub :: "f32 \<Rightarrow> f32 \<Rightarrow> f32" where
  "b32_sub a b = b32_add a (b32_neg b)"

fun b32_mul :: "f32 \<Rightarrow> f32 \<Rightarrow> f32" where
  "b32_mul (Fin s m) (Fin t n) = mk (s \<noteq> t) (\<bar>m\<bar> * \<bar>n\<bar>)"
| "b32_mul (Fin s m) (Inf t) = (if m = 0 then NaN else Inf (s \<noteq> t))"
| "b32_mul (Inf s) (Fin t n) = (if n = 0 then NaN else Inf (s \<noteq> t))"
| "b32_mul (Inf s) (Inf t) = Inf (s \<noteq> t)"
| "b32_mul _ _ = NaN"

fun b32_div :: "f32 \<Rightarrow> f32 \<Rightarrow> f32" where
  "b32_div (Fin s m) (Fin t n) =
     (if n = 0 then (if m = 0 then NaN else Inf (s \<noteq> t)) else mk (s \<noteq> t) (\<bar>m\<bar> / \<bar>n\<bar>))"
| "b32_div (Fin s m) (Inf t) = Fin (s \<noteq> t) 0"
| "b32_div (Inf s) (Fin t n) = Inf (s \<noteq> t)"
| "b32_div _ _ = NaN"

fun b32_sqrt :: "f32 \<Rightarrow> f32" where
  "b32_sqrt (Fin s m) = (if m = 0 then Fin s 0 else if s then NaN else mk False (sqrt \<bar>m\<bar>))"
| "b32_sqrt (Inf s) = (if s then NaN else Inf False)"
| "b32_sqrt NaN = NaN"

fun b32_exp :: "f32 \<Rightarrow> f32" where
  "b32_exp (Fin s m) = mk False (exp (val s m))"
| "b32_exp (Inf s) = (if s then Fin False 0 else Inf False)"
| "b32_exp NaN = NaN"

fun b32_pow :: "f32 \<Rightarrow> int \<Rightarrow> f32" where
  "b32_pow (Fin s m) n =
     (if n = 0 then Fin False 1
      else if 0 < n then mk (s \<and> odd n) (\<bar>m\<bar> ^ nat n)
      else if m = 0 then Inf (s \<and> odd n)
      else mk (s \<and> odd n) (1 / \<bar>m\<bar> ^ nat (- n)))"
| "b32_pow (Inf s) n =
     (if n = 0 then Fin False 1
      else if 0 < n then Inf (s \<and> odd n) else Fin (s \<and> odd n) 0)"
| "b32_pow NaN n = (if n = 0 then Fin False 1 else NaN)"

fun b32_less :: "f32 \<Rightarrow> f32 \<Rightarrow> bool" where
  "b32_less (Fin s m) (Fin t n) = (val s m < val t n)"
| "b32_less (Fin s m) (Inf t) = (\<not> t)"
| "b32_less (Inf s) (Fin t n) = s"
| "b32_less (Inf s) (Inf t) = (s \<and> \<not> t)"
| "b32_less _ _ = False"

definition b32_of_int :: "int \<Rightarrow> f32" where
  "b32_of_int n = mk (n < 0) \<bar>of_int n\<bar>"

fun b32_to_u8 :: "f32 \<Rightarrow> u8" where
  "b32_to_u8 (Fin s m) = word_of_int (if s then - \<lfloor>\<bar>m\<bar>\<rfloor> else \<lfloor>\<bar>m\<bar>\<rfloor>)"
| "b32_to_u8 _ = 0"

definition binary32 :: "f32 arith" where
  "binary32 =
     \<lparr> fadd = b32_add, fsub = b32_sub, fmul = b32_mul, fdiv = b32_div, fsqrt = b32_sqrt,
       fexp = b32_exp, fpow = b32_pow, fless = b32_less, fof_int = b32_of_int,
       mhalf = Fin True (1 / 2), fto_u8 = b32_to_u8 \<rparr>"

definition is_finite :: "f32 \<Rightarrow> bool" where
  "is_finite a = (case a of Fin _ _ \<Rightarrow> True | _ \<Rightarrow> False)"

text \<open>
  Ranges of values, for the analysis of the weights: a finite value with magnitude at most
  \<open>B\<close> (\<open>fin_le\<close>), such a value that is not negative (\<open>finn\<close>), a value that is not NaN
  (\<open>fi\<close>), one that is not NaN and not negative (\<open>nn\<close>) or not positive (\<open>np\<close>).  \<open>gauss\<close>,
  \<open>domain_norm\<close> and \<open>range_norm\<close> name the three parts of the weight as the code computes
  it: \<open>exp(-0.5f * (norm*norm))\<close> and the two values of \<open>norm\<close>.
\<close>

definition finn :: "real \<Rightarrow> f32 \<Rightarrow> bool" where
  "finn B a \<longleftrightarrow> (\<exists>m. a = Fin False m \<and> 0 \<le> m \<and> m \<le> B)"

definition fin_le :: "real \<Rightarrow> f32 \<Rightarrow> bool" where
  "fin_le B a \<longleftrightarrow> (\<exists>s m. a = Fin s m \<and> 0 \<le> m \<and> m \<le> B)"

definition nn :: "f32 \<Rightarrow> bool" where
  "nn a \<longleftrightarrow> (\<exists>m. a = Fin False m \<and> 0 \<le> m) \<or> a = Inf False"

definition fi :: "f32 \<Rightarrow> bool" where
  "fi a \<longleftrightarrow> (\<exists>s m. a = Fin s m \<and> 0 \<le> m) \<or> (\<exists>s. a = Inf s)"

definition np :: "f32 \<Rightarrow> bool" where
  "np a \<longleftrightarrow> (\<exists>m. a = Fin True m \<and> 0 \<le> m) \<or> a = Inf True"

definition gauss :: "f32 \<Rightarrow> f32" where
  "gauss n = b32_exp (b32_mul (Fin True (1 / 2)) (b32_mul n n))"

definition domain_norm :: "f32 \<Rightarrow> int \<Rightarrow> int \<Rightarrow> f32" where
  "domain_norm sigmaDomain i j =
     b32_mul (b32_sqrt (b32_add (b32_of_int (i * i)) (b32_of_int (j * j))))
             (b32_div (b32_of_int 1) sigmaDomain)"

definition range_norm :: "f32 \<Rightarrow> f32 \<times> f32 \<times> f32 \<Rightarrow> f32 \<times> f32 \<times> f32 \<Rightarrow> f32" where
  "range_norm sigmaRange s c =
     (case s of (r, g, b) \<Rightarrow> case c of (cr, cg, cb) \<Rightarrow>
        b32_mul (b32_sqrt (b32_add (b32_add (b32_pow (b32_sub r cr) 2) (b32_pow (b32_sub g cg) 2))
                                   (b32_pow (b32_sub b cb) 2)))
                (b32_div (b32_of_int 1) sigmaRange))"

definition unit3 :: "f32 \<times> f32 \<times> f32 \<Rightarrow> bool" where
  "unit3 s \<longleftrightarrow> finn 2 (fst s) \<and> finn 2 (fst (snd s)) \<and> finn 2 (snd (snd s))"

text \<open>
  The partial sums of the exponential series with 10 and with 11 terms, in Horner form:
  for \<open>x < 0\<close> the exponential lies strictly between them.  They decide how \<open>exp\<close> rounds
  at the arguments met below.
\<close>

definition exp_lower :: "real \<Rightarrow> real" where
  "exp_lower x = 1 + x * (1 + x / 2 * (1 + x / 3 * (1 + x / 4 * (1 + x / 5 * (1 + x / 6 *
     (1 + x / 7 * (1 + x / 8 * (1 + x / 9))))))))"

definition exp_upper :: "real \<Rightarrow> real" where
  "exp_upper x = 1 + x * (1 + x / 2 * (1 + x / 3 * (1 + x / 4 * (1 + x / 5 * (1 + x / 6 *
     (1 + x / 7 * (1 + x / 8 * (1 + x / 9 * (1 + x / 10)))))))))"

text \<open>
  The 25 weights on a flat image for \<open>sigmaDomain = 3\<close>, row by row, as they come out in
  single precision (lemma \<open>flat_weights_3\<close>), all of them positive: the values of
  \<open>exp(-0.5f * n\<^sup>2)\<close> for \<open>n = sqrt(d) * (1.f/3.f)\<close> and \<open>d = i\<^sup>2 + j\<^sup>2\<close> in
  \<open>{8, 5, 4, 2, 1, 0}\<close>.
\<close>

definition weights_3_real :: "real list" where
  "weights_3_real =
     [5378611 / 8388608, 3177039 / 4194304, 419817 / 524288, 3177039 / 4194304, 5378611 / 8388608,
      3177039 / 4194304, 938307 / 1048576, 7935283 / 8388608, 938307 / 1048576, 3177039 / 4194304,
      419817 / 524288, 7935283 / 8388608, 1, 7935283 / 8388608, 419817 / 524288,
      3177039 / 4194304, 938307 / 1048576, 7935283 / 8388608, 938307 / 1048576, 3177039 / 4194304,
      5378611 / 8388608, 3177039 / 4194304, 419817 / 524288, 3177039 / 4194304, 5378611 / 8388608]"

definition weights_3 :: "f32 list" where
  "weights_3 = map (Fin False) weights_3_real"

text \<open>
  The relative error of one rounding is at most \<open>eps32 = 2^(-24)\<close> (for a result that is
  not subnormal).  \<open>near k x r\<close> says that \<open>r\<close> is \<open>x\<close> up to \<open>k\<close> such errors:
  \<open>x * (1 - eps32)^k \<le> r \<le> x * (1 + eps32)^k\<close>.
\<close>

definition eps32 :: real where
  "eps32 = 1 / 2 ^ 24"

definition near :: "nat \<Rightarrow> real \<Rightarrow> real \<Rightarrow> bool" where
  "near k x r \<longleftrightarrow> x * (1 - eps32) ^ k \<le> r \<and> r \<le> x * (1 + eps32) ^ k"

section \<open>The verification loop of \<open>main\<close>\<close>

text \<open>
  What the loop prints, line by line, and its state: the counter \<open>errors\<close> (an
  \<open>unsigned\<close>) and the lines printed so far.
\<close>

datatype line =
    VerificationFailed
  | Mismatch int int int int int
  | TotalErrors "32 word"
  | VerificationPassed

record checker =
  errors :: "32 word"
  printed :: "line list"

text \<open>
  The body of the loop over \<open>c\<close>, lines 152 to 168.  \<open>diff\<close> is
  \<open>abs((int)ref - (int)out)\<close> as an \<open>unsigned\<close>; \<open>errors++ < 8\<close> compares the value before
  the increment.
\<close>

definition check_channel :: "32 word \<Rightarrow> buffer \<Rightarrow> buffer \<Rightarrow> int \<Rightarrow> int \<Rightarrow> int \<Rightarrow> int
    \<Rightarrow> checker \<Rightarrow> checker option" where
  "check_channel tolerance result reference width y x c st =
     do {
       out \<leftarrow> rd result ((x + y * width) * 4 + c);
       ref \<leftarrow> rd reference ((x + y * width) * 4 + c);
       let diff = (word_of_int \<bar>uint ref - uint out\<bar> :: 32 word);
       Some (if tolerance < diff
             then (let st1 = (if errors st = 0
                              then st\<lparr>printed := printed st @ [VerificationFailed]\<rparr> else st);
                       e = errors st1;
                       st2 = st1\<lparr>errors := e + 1\<rparr>
                   in if e < 8
                      then st2\<lparr>printed := printed st2 @ [Mismatch x y c (uint out) (uint ref)]\<rparr>
                      else st2)
             else st)
     }"

text \<open>The three loops, lines 145 to 171, and the report after them, lines 172 to 179.\<close>

definition check_results :: "32 word \<Rightarrow> buffer \<Rightarrow> buffer \<Rightarrow> int \<Rightarrow> int \<Rightarrow> checker option" where
  "check_results tolerance result reference width height =
     do {
       st \<leftarrow> for_loop 0 height
               (\<lambda>y. for_loop 0 width
                 (\<lambda>x. for_loop 0 3 (check_channel tolerance result reference width y x)))
               \<lparr> errors = 0, printed = [] \<rparr>;
       Some (if errors st \<noteq> 0
             then st\<lparr>printed := printed st @ [TotalErrors (errors st)]\<rparr>
             else st\<lparr>printed := printed st @ [VerificationPassed]\<rparr>)
     }"

text \<open>
  For the statements about the loop: the cells \<open>(y, x, c)\<close> in the order the loops visit
  them, whether a cell is a mismatch (the absolute difference of the two bytes, on the
  integer scale, exceeds the tolerance), the line printed for it, and the loop body as a
  function of the state.
\<close>

definition cells :: "int \<Rightarrow> int \<Rightarrow> (int \<times> int \<times> int) list" where
  "cells width height = List.product [0..height - 1] (List.product [0..width - 1] [0..2])"

definition mismatch :: "32 word \<Rightarrow> buffer \<Rightarrow> buffer \<Rightarrow> int \<Rightarrow> int \<times> int \<times> int \<Rightarrow> bool" where
  "mismatch tolerance result reference width cell =
     (case cell of (y, x, c) \<Rightarrow>
        uint tolerance < \<bar>uint (reference ! nat ((x + y * width) * 4 + c))
                          - uint (result ! nat ((x + y * width) * 4 + c))\<bar>)"

definition mismatch_line :: "buffer \<Rightarrow> buffer \<Rightarrow> int \<Rightarrow> int \<times> int \<times> int \<Rightarrow> line" where
  "mismatch_line result reference width cell =
     (case cell of (y, x, c) \<Rightarrow>
        Mismatch x y c (uint (result ! nat ((x + y * width) * 4 + c)))
                       (uint (reference ! nat ((x + y * width) * 4 + c))))"

definition check_step :: "32 word \<Rightarrow> buffer \<Rightarrow> buffer \<Rightarrow> int \<Rightarrow> checker \<Rightarrow> int \<times> int \<times> int \<Rightarrow> checker" where
  "check_step tolerance result reference width st cell =
     (if mismatch tolerance result reference width cell
      then \<lparr> errors = errors st + 1,
             printed = printed st @ (if errors st = 0 then [VerificationFailed] else [])
                         @ (if errors st < 8 then [mismatch_line result reference width cell] else []) \<rparr>
      else st)"

section \<open>The benchmark loop of \<open>main\<close>\<close>

text \<open>
  The commands the host puts on the queue: a kernel invocation with its arguments (the
  input image, the output image, \<open>sigmaDomain\<close>, \<open>sigmaRange\<close>), and \<open>queue.finish()\<close>.
\<close>

datatype ('b, 'f) command = Kernel 'b 'b 'f 'f | Finish

text \<open>
  \<open>for (unsigned i = 0; i < iterations; i++) kernel(\<dots>)\<close>, started at \<open>i\<close>, with the
  commands issued so far.  The counter is a 32-bit unsigned integer.
\<close>

function enqueue_loop :: "32 word \<Rightarrow> 32 word \<Rightarrow> 'c \<Rightarrow> 'c list \<Rightarrow> 'c list" where
  "enqueue_loop i iterations cmd queue =
     (if i < iterations then enqueue_loop (i + 1) iterations cmd (queue @ [cmd]) else queue)"
  by pat_completeness auto
termination
proof (relation "measure (\<lambda>(i, iterations, cmd, queue). unat iterations - unat i)")
  show "wf (measure (\<lambda>(i, iterations, cmd, queue). unat iterations - unat i))"
    by simp
next
  fix i iterations :: "32 word" and cmd :: 'c and queue :: "'c list"
  assume less: "i < iterations"
  then have lt: "unat i < unat iterations" by (simp add: word_less_nat_alt)
  moreover have "unat iterations < 2 ^ 32" using unsigned_less[of iterations] by simp
  ultimately have "unat i + 1 < 2 ^ 32" by simp
  then have "unat (i + 1) = unat i + 1" by (simp add: unat_word_ariths)
  with lt show "((i + 1, iterations, cmd, queue @ [cmd]), (i, iterations, cmd, queue))
      \<in> measure (\<lambda>(i, iterations, cmd, queue). unat iterations - unat i)"
    by simp
qed

declare enqueue_loop.simps [simp del]

text \<open>
  The arithmetic of the report is \<open>double\<close>, again a parameter: \<open>d_of_u64\<close> and \<open>d_of_u32\<close>
  are the conversions of \<open>uint64_t\<close> and \<open>unsigned\<close>, \<open>milli\<close> is the literal \<open>1e-3\<close>.
\<close>

record 'd darith =
  dmul :: "'d \<Rightarrow> 'd \<Rightarrow> 'd"
  ddiv :: "'d \<Rightarrow> 'd \<Rightarrow> 'd"
  d_of_u64 :: "64 word \<Rightarrow> 'd"
  d_of_u32 :: "32 word \<Rightarrow> 'd"
  milli :: 'd

record ('b, 'f, 'd) benchmark_run =
  issued :: "('b, 'f) command list"
  total :: 'd
  per_frame :: 'd

text \<open>
  Lines 109 to 122: the loop, \<open>queue.finish()\<close>, and the two numbers printed.  The two
  readings of the timer are arguments.
\<close>

definition benchmark :: "'d darith \<Rightarrow> 32 word \<Rightarrow> 'b \<Rightarrow> 'b \<Rightarrow> 'f \<Rightarrow> 'f \<Rightarrow> 64 word \<Rightarrow> 64 word
    \<Rightarrow> ('b, 'f, 'd) benchmark_run" where
  "benchmark dops iterations input output sigmaDomain sigmaRange startTime endTime =
     (let queue = enqueue_loop 0 iterations (Kernel input output sigmaDomain sigmaRange) [] @ [Finish];
          total = dmul dops (d_of_u64 dops (endTime - startTime)) (milli dops)
      in \<lparr> issued = queue, total = total, per_frame = ddiv dops total (d_of_u32 dops iterations) \<rparr>)"

definition is_kernel :: "('b, 'f) command \<Rightarrow> bool" where
  "is_kernel cmd = (case cmd of Kernel _ _ _ _ \<Rightarrow> True | Finish \<Rightarrow> False)"

definition real_darith :: "real darith" where
  "real_darith =
     \<lparr> dmul = (*), ddiv = (/), d_of_u64 = (\<lambda>t. real (unat t)), d_of_u32 = (\<lambda>n. real (unat n)),
       milli = 1 / 1000 \<rparr>"

section \<open>Loops and buffers\<close>

lemma for_loop_done: "n \<le> i \<Longrightarrow> for_loop i n body s = Some s"
  by (simp add: for_loop.simps)

lemma for_loop_step:
  "i < n \<Longrightarrow> for_loop i n body s = (case body i s of None \<Rightarrow> None | Some s' \<Rightarrow> for_loop (i + 1) n body s')"
  by (subst for_loop.simps) simp

lemma for_loop_rule:
  assumes "P i s"
    and "\<And>k t. i \<le> k \<Longrightarrow> k < n \<Longrightarrow> P k t \<Longrightarrow> \<exists>t'. body k t = Some t' \<and> P (k + 1) t'"
  shows "\<exists>s'. for_loop i n body s = Some s' \<and> P (max i n) s'"
  using assms
proof (induction i n body s rule: for_loop.induct)
  case (1 i n body s)
  show ?case
  proof (cases "i < n")
    case False
    then show ?thesis using "1.prems"(1) by (simp add: for_loop_done max_def)
  next
    case True
    from "1.prems"(2)[OF _ True "1.prems"(1)] obtain t where t: "body i s = Some t" "P (i + 1) t"
      by auto
    have "\<exists>s'. for_loop (i + 1) n body t = Some s' \<and> P (max (i + 1) n) s'"
      by (rule "1.IH"[OF True t(1) t(2)]) (use "1.prems"(2) in auto)
    then show ?thesis using True t by (simp add: for_loop_step max_def)
  qed
qed

lemma for_loop_foldl:
  assumes "\<And>k t. i \<le> k \<Longrightarrow> k < n \<Longrightarrow> body k t = Some (g t k)"
  shows "for_loop i n body s = Some (foldl g s [i..n - 1])"
  using assms
proof (induction i n body s rule: for_loop.induct)
  case (1 i n body s)
  show ?case
  proof (cases "i < n")
    case False
    then show ?thesis by (simp add: for_loop_done)
  next
    case True
    have b: "body i s = Some (g s i)" using "1.prems" True by simp
    have "for_loop (i + 1) n body (g s i) = Some (foldl g (g s i) [i + 1..n - 1])"
      by (rule "1.IH"[OF True b]) (use "1.prems" in auto)
    moreover have "[i..n - 1] = i # [i + 1..n - 1]" using True by (simp add: upto_rec1)
    ultimately show ?thesis using True b by (simp add: for_loop_step)
  qed
qed

lemma rd_wr:
  "wr buf j v = Some buf' \<Longrightarrow> rd buf' k = (if k = j then Some v else rd buf k)"
  by (auto simp: rd_def wr_def split: if_splits)

lemma length_wr: "wr buf j v = Some buf' \<Longrightarrow> length buf' = length buf"
  by (auto simp: wr_def split: if_splits)

lemma wr_Some: "0 \<le> j \<Longrightarrow> j < int (length buf) \<Longrightarrow> \<exists>buf'. wr buf j v = Some buf'"
  by (simp add: wr_def)

lemma rd_Some: "0 \<le> j \<Longrightarrow> j < int (length buf) \<Longrightarrow> \<exists>v. rd buf j = Some v"
  by (simp add: rd_def)

lemma rd_ext:
  assumes "\<And>k. rd a k = rd b k"
  shows "a = b"
proof (rule nth_equalityI)
  show len: "length a = length b"
  proof (rule ccontr)
    assume "length a \<noteq> length b"
    then consider "length a < length b" | "length b < length a" by linarith
    then show False
    proof cases
      case 1
      then have "rd a (int (length a)) = None" "rd b (int (length a)) \<noteq> None"
        by (simp_all add: rd_def)
      then show False using assms by simp
    next
      case 2
      then have "rd b (int (length b)) = None" "rd a (int (length b)) \<noteq> None"
        by (simp_all add: rd_def)
      then show False using assms by simp
    qed
  qed
  fix i assume "i < length a"
  then show "a ! i = b ! i"
    using assms[of "int i"] len by (simp add: rd_def)
qed

lemma pixel_index_bounds:
  fixes x y w h :: int
  assumes "0 \<le> x" "x < w" "0 \<le> y" "y < h"
  shows "0 \<le> x + y * w" "x + y * w < w * h"
proof -
  have "0 \<le> w" using assms by linarith
  then have "0 \<le> y * w" using assms by simp
  then show "0 \<le> x + y * w" using assms by simp
  have "y * w \<le> (h - 1) * w" using assms \<open>0 \<le> w\<close> by (simp add: mult_right_mono)
  then show "x + y * w < w * h" using assms by (simp add: algebra_simps)
qed

lemma sample_xy_bounds:
  assumes "0 < w" "0 < h"
  shows "0 \<le> fst (sample_xy w h x y i j)" "fst (sample_xy w h x y i j) < w"
    "0 \<le> snd (sample_xy w h x y i j)" "snd (sample_xy w h x y i j) < h"
  using assms by (auto simp: sample_xy_def)

lemma channel_index_bounds:
  fixes x y w h c :: int
  assumes "0 \<le> x" "x < w" "0 \<le> y" "y < h" "0 \<le> c" "c < 4" "4 * w * h \<le> n"
  shows "0 \<le> (x + y * w) * 4 + c" "(x + y * w) * 4 + c < n"
  using pixel_index_bounds[OF assms(1-4)] assms(5-7) by auto

lemma sample_Some:
  assumes "0 < w" "0 < h" "4 * w * h \<le> int (length input)"
  shows "\<exists>s. sample ops input w h x y i j = Some s"
proof -
  obtain x' y' where xy: "sample_xy w h x y i j = (x', y')" by fastforce
  from sample_xy_bounds[OF assms(1,2), of x y i j] xy
  have b: "0 \<le> x'" "x' < w" "0 \<le> y'" "y' < h" by simp_all
  have "\<exists>v. rd input ((x' + y' * w) * 4 + c) = Some v" if "0 \<le> c" "c < 4" for c
    using channel_index_bounds[OF b that assms(3)] by (simp add: rd_def)
  from this[of 0] this[of 1] this[of 2] show ?thesis
    by (auto simp: sample_def xy)
qed

lemma accumulate_Some:
  assumes "0 < w" "0 < h" "4 * w * h \<le> int (length input)"
  shows "\<exists>a'. accumulate ops sD sR input w h x y c j i a = Some a'"
  using sample_Some[OF assms, of ops x y i j] by (auto simp: accumulate_def Let_def)

lemma for_loop_total:
  assumes "\<And>k t. i \<le> k \<Longrightarrow> k < n \<Longrightarrow> \<exists>t'. body k t = Some t'"
  shows "\<exists>s'. for_loop i n body s = Some s'"
  using for_loop_rule[of "\<lambda>_ _. True" i s n body] assms by auto

lemma neighbourhood_Some:
  assumes "0 < w" "0 < h" "4 * w * h \<le> int (length input)"
  shows "\<exists>a. neighbourhood ops sD sR input w h x y c = Some a"
  unfolding neighbourhood_def
  by (intro for_loop_total accumulate_Some[OF assms])

lemma pixel_Some:
  assumes "0 \<le> x" "x < w" "0 \<le> y" "y < h"
    and "4 * w * h \<le> int (length input)" "4 * w * h \<le> int (length out)"
  shows "\<exists>out'. pixel ops sD sR input w h y x out = Some out'"
proof -
  have wh: "0 < w" "0 < h" using assms by auto
  have r: "\<exists>v. rd input ((x + y * w) * 4 + c) = Some v" if "0 \<le> c" "c < 4" for c
    using channel_index_bounds[OF assms(1-4) that assms(5)] by (simp add: rd_def)
  have w: "\<exists>b'. wr b ((x + y * w) * 4 + c) v = Some b'"
    if "0 \<le> c" "c < 4" "length b = length out" for c b v
    using channel_index_bounds[OF assms(1-4) that(1,2) assms(6)] that(3) by (simp add: wr_def)
  from r[of 0] r[of 1] r[of 2] r[of 3]
  obtain cr cg cb al where rs: "rd input ((x + y * w) * 4 + 0) = Some cr"
    "rd input ((x + y * w) * 4 + 1) = Some cg" "rd input ((x + y * w) * 4 + 2) = Some cb"
    "rd input ((x + y * w) * 4 + 3) = Some al" by auto
  obtain a where a: "neighbourhood ops sD sR input w h x y
      (normalise ops cr, normalise ops cg, normalise ops cb) = Some a"
    using neighbourhood_Some[OF wh assms(5), of ops sD sR x y
        "(normalise ops cr, normalise ops cg, normalise ops cb)"] by auto
  obtain o0 where o0: "wr out ((x + y * w) * 4 + 0) (quantise ops (sr a) (coeff a)) = Some o0"
    using w[of 0 out] by auto
  obtain o1 where o1: "wr o0 ((x + y * w) * 4 + 1) (quantise ops (sg a) (coeff a)) = Some o1"
    using w[of 1 o0] length_wr[OF o0] by auto
  obtain o2 where o2: "wr o1 ((x + y * w) * 4 + 2) (quantise ops (sb a) (coeff a)) = Some o2"
    using w[of 2 o1] length_wr[OF o0] length_wr[OF o1] by auto
  obtain o3 where o3: "wr o2 ((x + y * w) * 4 + 3) al = Some o3"
    using w[of 3 o2] length_wr[OF o0] length_wr[OF o1] length_wr[OF o2] by auto
  show ?thesis using rs a o0 o1 o2 o3 by (simp add: pixel_def)
qed

lemma pixel_effect:
  assumes "pixel ops sD sR input w h y x output = Some out'"
  shows "length out' = length output"
    and "rd out' k = (if (x + y * w) * 4 \<le> k \<and> k < (x + y * w) * 4 + 4
                      then reference_byte ops sD sR input w h x y (k - (x + y * w) * 4)
                      else rd output k)"
proof -
  from assms obtain cr cg cb a o0 o1 o2 al where
    rs: "rd input ((x + y * w) * 4 + 0) = Some cr"
    "rd input ((x + y * w) * 4 + 1) = Some cg" "rd input ((x + y * w) * 4 + 2) = Some cb"
    "rd input ((x + y * w) * 4 + 3) = Some al"
    and a: "neighbourhood ops sD sR input w h x y
      (normalise ops cr, normalise ops cg, normalise ops cb) = Some a"
    and o0: "wr output ((x + y * w) * 4 + 0) (quantise ops (sr a) (coeff a)) = Some o0"
    and o1: "wr o0 ((x + y * w) * 4 + 1) (quantise ops (sg a) (coeff a)) = Some o1"
    and o2: "wr o1 ((x + y * w) * 4 + 2) (quantise ops (sb a) (coeff a)) = Some o2"
    and o3: "wr o2 ((x + y * w) * 4 + 3) al = Some out'"
    by (auto simp: pixel_def bind_eq_Some_conv)
  show "length out' = length output"
    using length_wr[OF o0] length_wr[OF o1] length_wr[OF o2] length_wr[OF o3] by simp
  have cases: "k - (x + y * w) * 4 = 0 \<or> k - (x + y * w) * 4 = 1 \<or> k - (x + y * w) * 4 = 2
      \<or> k - (x + y * w) * 4 = 3"
    if "(x + y * w) * 4 \<le> k" "k < (x + y * w) * 4 + 4"
    using that by linarith
  show "rd out' k = (if (x + y * w) * 4 \<le> k \<and> k < (x + y * w) * 4 + 4
                      then reference_byte ops sD sR input w h x y (k - (x + y * w) * 4)
                      else rd output k)"
  proof (cases "(x + y * w) * 4 \<le> k \<and> k < (x + y * w) * 4 + 4")
    case False
    then show ?thesis
      using rd_wr[OF o0, of k] rd_wr[OF o1, of k] rd_wr[OF o2, of k] rd_wr[OF o3, of k]
      by (auto split: if_splits)
  next
    case True
    then consider "k = (x + y * w) * 4 + 0" | "k = (x + y * w) * 4 + 1"
      | "k = (x + y * w) * 4 + 2" | "k = (x + y * w) * 4 + 3" by linarith
    then show ?thesis
    proof cases
      case 1
      then show ?thesis
        using rd_wr[OF o0, of k] rd_wr[OF o1, of k] rd_wr[OF o2, of k] rd_wr[OF o3, of k] rs a
        by (simp add: reference_byte_def)
    next
      case 2
      then show ?thesis
        using rd_wr[OF o0, of k] rd_wr[OF o1, of k] rd_wr[OF o2, of k] rd_wr[OF o3, of k] rs a
        by (simp add: reference_byte_def)
    next
      case 3
      then show ?thesis
        using rd_wr[OF o0, of k] rd_wr[OF o1, of k] rd_wr[OF o2, of k] rd_wr[OF o3, of k] rs a
        by (simp add: reference_byte_def)
    next
      case 4
      then show ?thesis
        using rd_wr[OF o0, of k] rd_wr[OF o1, of k] rd_wr[OF o2, of k] rd_wr[OF o3, of k] rs a
        by (simp add: reference_byte_def)
    qed
  qed
qed

lemma decode_index:
  fixes x y w c :: int
  assumes "0 \<le> x" "x < w" "0 \<le> c" "c < 4"
  shows "((x + y * w) * 4 + c) div 4 = x + y * w" "((x + y * w) * 4 + c) mod 4 = c"
    "(x + y * w) mod w = x" "(x + y * w) div w = y"
proof -
  have "(p * 4 + c) div 4 = p" "(p * 4 + c) mod 4 = c" for p :: int
    using assms(3,4) by simp_all
  then show "((x + y * w) * 4 + c) div 4 = x + y * w" "((x + y * w) * 4 + c) mod 4 = c"
    by blast+
  show "(x + y * w) mod w = x" using assms(1,2) by simp
  show "(x + y * w) div w = y" using assms(1,2) by simp
qed

lemma image_byte_at:
  assumes "0 \<le> x" "x < w" "0 \<le> c" "c < 4"
  shows "image_byte ops sD sR input w h ((x + y * w) * 4 + c) = reference_byte ops sD sR input w h x y c"
  unfolding image_byte_def using decode_index[OF assms, of y] by simp

lemma pixel_written:
  assumes xy: "0 \<le> x" "x < w" "0 \<le> y" "y < h"
    and len: "4 * w * h \<le> int (length input)" "4 * w * h \<le> int (length out0)"
    and inv: "written ops sD sR input w h out0 (x + y * w) out"
  shows "\<exists>out'. pixel ops sD sR input w h y x out = Some out'
           \<and> written ops sD sR input w h out0 (x + 1 + y * w) out'"
proof -
  have lo: "length out = length out0" using inv by (simp add: written_def)
  obtain out' where p: "pixel ops sD sR input w h y x out = Some out'"
    using pixel_Some[OF xy len(1), where out = out and ops = ops and sD = sD and sR = sR]
      len(2) lo by auto
  note eff = pixel_effect[OF p]
  have "rd out' k = (if 0 \<le> k \<and> k < 4 * (x + 1 + y * w)
                      then image_byte ops sD sR input w h k else rd out0 k)" for k
  proof (cases "(x + y * w) * 4 \<le> k \<and> k < (x + y * w) * 4 + 4")
    case True
    define c where "c = k - (x + y * w) * 4"
    have c: "0 \<le> c" "c < 4" "k = (x + y * w) * 4 + c" using True by (simp_all add: c_def)
    have "0 \<le> x + y * w" using pixel_index_bounds(1)[OF xy] .
    then have "0 \<le> k \<and> k < 4 * (x + 1 + y * w)" using c by simp
    moreover have "rd out' k = reference_byte ops sD sR input w h x y c"
      by (simp only: eff(2)[of k] if_P[OF True] c_def)
    ultimately show ?thesis
      using image_byte_at[OF xy(1,2) c(1,2), of ops sD sR input h y] c(3) by simp
  next
    case False
    then have "rd out' k = rd out k" by (simp only: eff(2)[of k] if_False)
    also have "\<dots> = (if 0 \<le> k \<and> k < 4 * (x + y * w)
                      then image_byte ops sD sR input w h k else rd out0 k)"
      using inv by (simp add: written_def)
    also have "\<dots> = (if 0 \<le> k \<and> k < 4 * (x + 1 + y * w)
                      then image_byte ops sD sR input w h k else rd out0 k)"
      using False by auto
    finally show ?thesis .
  qed
  then show ?thesis using p eff(1) lo by (auto simp: written_def)
qed

lemma row_written:
  assumes y: "0 \<le> y" "y < h" and w: "0 \<le> w"
    and len: "4 * w * h \<le> int (length input)" "4 * w * h \<le> int (length out0)"
    and inv: "written ops sD sR input w h out0 (y * w) out"
  shows "\<exists>out'. for_loop 0 w (pixel ops sD sR input w h y) out = Some out'
           \<and> written ops sD sR input w h out0 ((y + 1) * w) out'"
proof -
  have "\<exists>out'. for_loop 0 w (pixel ops sD sR input w h y) out = Some out'
           \<and> written ops sD sR input w h out0 (max 0 w + y * w) out'"
  proof (rule for_loop_rule[where P = "\<lambda>x. written ops sD sR input w h out0 (x + y * w)"])
    show "written ops sD sR input w h out0 (0 + y * w) out" using inv by simp
  next
    fix k t
    assume "0 \<le> k" "k < w" "written ops sD sR input w h out0 (k + y * w) t"
    then show "\<exists>t'. pixel ops sD sR input w h y k t = Some t'
        \<and> written ops sD sR input w h out0 (k + 1 + y * w) t'"
      using pixel_written[OF _ _ y len, where ops = ops and sD = sD and sR = sR] by blast
  qed
  moreover have "max 0 w + y * w = (y + 1) * w" using w by (simp add: algebra_simps)
  ultimately show ?thesis by simp
qed

lemma runReference_written:
  assumes dims: "0 \<le> w" "0 \<le> h"
    and len: "4 * w * h \<le> int (length input)" "4 * w * h \<le> int (length out0)"
  shows "\<exists>out. runReference ops sD sR input out0 w h = Some out
           \<and> written ops sD sR input w h out0 (w * h) out"
proof -
  have "\<exists>out. for_loop 0 h (\<lambda>y. for_loop 0 w (pixel ops sD sR input w h y)) out0 = Some out
           \<and> written ops sD sR input w h out0 (max 0 h * w) out"
  proof (rule for_loop_rule[where P = "\<lambda>y. written ops sD sR input w h out0 (y * w)"])
    show "written ops sD sR input w h out0 (0 * w) out0" by (auto simp: written_def)
  next
    fix k t
    assume "0 \<le> k" "k < h" "written ops sD sR input w h out0 (k * w) t"
    then show "\<exists>t'. for_loop 0 w (pixel ops sD sR input w h k) t = Some t'
        \<and> written ops sD sR input w h out0 ((k + 1) * w) t'"
      using row_written[OF _ _ dims(1) len, where ops = ops and sD = sD and sR = sR] by blast
  qed
  moreover have "max 0 h * w = w * h" using dims by (simp add: algebra_simps)
  ultimately show ?thesis by (simp add: runReference_def)
qed

lemma runReference_pixels:
  assumes dims: "0 \<le> w" "0 \<le> h"
    and len: "4 * w * h \<le> int (length input)" "4 * w * h \<le> int (length out0)"
  shows "\<exists>out. runReference ops sD sR input out0 w h = Some out
           \<and> length out = length out0
           \<and> (\<forall>x y c. 0 \<le> x \<and> x < w \<and> 0 \<le> y \<and> y < h \<and> 0 \<le> c \<and> c < 4 \<longrightarrow>
                 rd out ((x + y * w) * 4 + c) = reference_byte ops sD sR input w h x y c)"
proof -
  obtain out where out: "runReference ops sD sR input out0 w h = Some out"
    "written ops sD sR input w h out0 (w * h) out"
    using runReference_written[OF assms, where ops = ops and sD = sD and sR = sR] by blast
  have "rd out ((x + y * w) * 4 + c) = reference_byte ops sD sR input w h x y c"
    if "0 \<le> x" "x < w" "0 \<le> y" "y < h" "0 \<le> c" "c < 4" for x y c
  proof -
    have "0 \<le> (x + y * w) * 4 + c" "(x + y * w) * 4 + c < 4 * (w * h)"
      using channel_index_bounds[OF that, of "4 * w * h"] by simp_all
    then show ?thesis
      using out(2) image_byte_at[OF that(1,2,5,6), of ops sD sR input h y]
      by (simp add: written_def)
  qed
  then show ?thesis using out by (auto simp: written_def)
qed

lemma sample_xy_clamp:
  assumes "0 < w" "0 < h"
  shows "sample_xy w h x y i j = (spec_clamp 0 (w - 1) (x + i), spec_clamp 0 (h - 1) (y + j))"
  using assms by (auto simp: sample_xy_def spec_clamp_def)

lemma sample_eq:
  assumes "0 < w" "0 < h" "4 * w * h \<le> int (length input)"
  shows "sample ops input w h x y i j =
     Some (spec_sample ops input w h x y (i, j) 0, spec_sample ops input w h x y (i, j) 1,
           spec_sample ops input w h x y (i, j) 2)"
proof -
  define x' y' where "x' = spec_clamp 0 (w - 1) (x + i)" and "y' = spec_clamp 0 (h - 1) (y + j)"
  have xy: "sample_xy w h x y i j = (x', y')"
    using sample_xy_clamp[OF assms(1,2)] by (simp add: x'_def y'_def)
  from sample_xy_bounds[OF assms(1,2), of x y i j] xy
  have b: "0 \<le> x'" "x' < w" "0 \<le> y'" "y' < h" by simp_all
  have "rd input ((x' + y' * w) * 4 + c) = Some (input ! nat ((x' + y' * w) * 4 + c))"
    if "0 \<le> c" "c < 4" for c
    using channel_index_bounds[OF b that assms(3)] by (simp add: rd_def)
  from this[of 0] this[of 1] this[of 2] show ?thesis
    by (simp add: sample_def xy spec_sample_def normalise_def x'_def[symmetric] y'_def[symmetric])
qed

lemma spec_clamp_id: "lo \<le> v \<Longrightarrow> v \<le> hi \<Longrightarrow> spec_clamp lo hi v = v"
  by (simp add: spec_clamp_def)

lemma foldl_acc_step:
  "foldl (acc_step ops W S) a offs =
     \<lparr> coeff = foldl (fadd ops) (coeff a) (map W offs),
       sr = foldl (fadd ops) (sr a) (map (\<lambda>off. fmul ops (W off) (S off 0)) offs),
       sg = foldl (fadd ops) (sg a) (map (\<lambda>off. fmul ops (W off) (S off 1)) offs),
       sb = foldl (fadd ops) (sb a) (map (\<lambda>off. fmul ops (W off) (S off 2)) offs) \<rparr>"
  by (induction offs arbitrary: a) (simp_all add: acc_step_def)

lemma foldl_nested:
  "foldl (\<lambda>a j. foldl (\<lambda>a i. f a (i, j)) a is) a js
     = foldl f a (concat (map (\<lambda>j. map (\<lambda>i. (i, j)) is) js))"
  by (induction js arbitrary: a) (simp_all add: foldl_map)

lemma reference_byte_rgb:
  assumes "rd input ((x + y * w) * 4 + 0) = Some cr" "rd input ((x + y * w) * 4 + 1) = Some cg"
    "rd input ((x + y * w) * 4 + 2) = Some cb"
    and "neighbourhood ops sD sR input w h x y (normalise ops cr, normalise ops cg, normalise ops cb)
      = Some a"
    and "c \<noteq> 3"
  shows "reference_byte ops sD sR input w h x y c
    = Some (quantise ops (if c = 0 then sr a else if c = 1 then sg a else sb a) (coeff a))"
  using assms by (simp add: reference_byte_def)

section \<open>The reference filter: what it computes\<close>

text \<open>The list of offsets holds each of the 25 pairs \<open>(i, j)\<close>, \<open>i, j \<in> [-2, 2]\<close>, once.\<close>

lemma upto_m2_2: "[- 2..2] = [- 2, - 1, 0, 1, 2 :: int]"
  by (simp add: upto.simps)

lemma spec_offsets_all:
  "distinct spec_offsets \<and> length spec_offsets = 25 \<and>
   set spec_offsets = {(i, j). - 2 \<le> i \<and> i \<le> 2 \<and> - 2 \<le> j \<and> j \<le> 2}"
proof -
  have "distinct spec_offsets" "length spec_offsets = 25"
    unfolding spec_offsets_def upto_m2_2 by simp_all
  moreover have "set (concat (map (\<lambda>j. map (\<lambda>i. (i, j)) is) js))
      = {(i, j). i \<in> set is \<and> j \<in> set js}" for "is" js :: "int list"
    by auto
  then have "set spec_offsets = {(i, j). i \<in> {- 2..2} \<and> j \<in> {- 2..2}}"
    unfolding spec_offsets_def by (simp only: set_upto)
  then have "set spec_offsets = {(i, j). - 2 \<le> i \<and> i \<le> 2 \<and> - 2 \<le> j \<and> j \<le> 2}"
    by (simp only: atLeastAtMost_iff conj_assoc)
  ultimately show ?thesis by simp
qed

section \<open>The neighbourhood loops as a fold\<close>

lemma accumulate_eq:
  assumes "0 < w" "0 < h" "4 * w * h \<le> int (length input)"
  shows "accumulate ops sD sR input w h x y c j i a
    = Some (acc_step ops (sample_weight ops sD sR input w h x y c) (spec_sample ops input w h x y) a (i, j))"
  by (simp add: accumulate_def sample_eq[OF assms] sample_weight_def acc_step_def Let_def)

lemma neighbourhood_fold:
  assumes dims: "0 < w" "0 < h" "4 * w * h \<le> int (length input)"
  shows "neighbourhood ops sD sR input w h x y c
         = Some (foldl (acc_step ops (sample_weight ops sD sR input w h x y c)
                                      (spec_sample ops input w h x y))
                   (zero_acc ops) spec_offsets)"
proof -
  let ?f = "acc_step ops (sample_weight ops sD sR input w h x y c) (spec_sample ops input w h x y)"
  have inner: "for_loop (- 2) 3 (accumulate ops sD sR input w h x y c j) a
      = Some (foldl (\<lambda>a i. ?f a (i, j)) a [- 2..2])" for j a
  proof -
    have "for_loop (- 2) 3 (accumulate ops sD sR input w h x y c j) a
      = Some (foldl (\<lambda>a i. ?f a (i, j)) a [- 2..3 - 1])"
      by (rule for_loop_foldl) (rule accumulate_eq[OF dims])
    then show ?thesis by simp
  qed
  have "neighbourhood ops sD sR input w h x y c
      = Some (foldl (\<lambda>a j. foldl (\<lambda>a i. ?f a (i, j)) a [- 2..2]) (zero_acc ops) [- 2..2])"
  proof -
    have "for_loop (- 2) 3 (\<lambda>j. for_loop (- 2) 3 (accumulate ops sD sR input w h x y c j)) (zero_acc ops)
      = Some (foldl (\<lambda>a j. foldl (\<lambda>a i. ?f a (i, j)) a [- 2..2]) (zero_acc ops) [- 2..3 - 1])"
      by (rule for_loop_foldl) (rule inner)
    then show ?thesis by (simp add: neighbourhood_def zero_acc_def)
  qed
  then show ?thesis by (simp only: foldl_nested spec_offsets_def)
qed

lemma neighbourhood_coeff:
  assumes dims: "0 < w" "0 < h" "4 * w * h \<le> int (length input)"
  shows "map_option coeff (neighbourhood ops sD sR input w h x y c)
         = Some (foldl (fadd ops) (fof_int ops 0)
                   (map (sample_weight ops sD sR input w h x y c) spec_offsets))"
  by (simp add: neighbourhood_fold[OF dims] foldl_acc_step zero_acc_def)

lemma centre_sample_eq:
  assumes "0 \<le> x" "x < w" "0 \<le> y" "y < h"
  shows "(spec_sample ops input w h x y (0, 0) 0, spec_sample ops input w h x y (0, 0) 1,
          spec_sample ops input w h x y (0, 0) 2) = centre_sample ops input w x y"
  using assms by (simp add: spec_sample_def centre_sample_def normalise_def spec_clamp_id)

section \<open>Rounding to single precision\<close>

lemma pow2_powr: "pow2 e = 2 powr (of_int e)"
  by (simp add: pow2_def powr_real_of_int field_simps)

lemma pow2_pos [simp]: "0 < pow2 e"
  by (simp add: pow2_powr)

lemma pow2_nonneg [simp]: "0 \<le> pow2 e"
  using pow2_pos[of e] by linarith

lemma pow2_neq0 [simp]: "pow2 e \<noteq> 0"
  using pow2_pos[of e] by linarith

lemma pow2_add: "pow2 (a + b) = pow2 a * pow2 b"
  by (simp add: pow2_powr powr_add)

lemma pow2_mono: "a \<le> b \<Longrightarrow> pow2 a \<le> pow2 b"
  by (simp add: pow2_powr)

lemma pow2_strict_mono: "a < b \<Longrightarrow> pow2 a < pow2 b"
  by (simp add: pow2_powr)

lemma pow2_nat: "0 \<le> e \<Longrightarrow> pow2 e = of_int (2 ^ nat e)"
  by (simp add: pow2_def)

lemma rne_cases: "rne x = \<lfloor>x\<rfloor> \<or> rne x = \<lfloor>x\<rfloor> + 1"
  by (simp add: rne_def)

lemma rne_le: "x \<le> of_int n \<Longrightarrow> rne x \<le> n"
proof -
  assume a: "x \<le> of_int n"
  have f: "\<lfloor>x\<rfloor> \<le> n" using floor_mono[OF a] by simp
  show ?thesis
  proof (cases "x = of_int \<lfloor>x\<rfloor>")
    case True
    then have "rne x = \<lfloor>x\<rfloor>" by (simp add: rne_def)
    then show ?thesis using f by simp
  next
    case False
    then have "of_int \<lfloor>x\<rfloor> < x" using of_int_floor_le[of x] by linarith
    then have "of_int \<lfloor>x\<rfloor> < (of_int n :: real)" using a by linarith
    then have "\<lfloor>x\<rfloor> < n" by simp
    then show ?thesis using rne_cases[of x] by linarith
  qed
qed

lemma rne_ge: "of_int n \<le> x \<Longrightarrow> n \<le> rne x"
proof -
  assume "of_int n \<le> x"
  then have "n \<le> \<lfloor>x\<rfloor>" by (simp add: le_floor_iff)
  then show ?thesis using rne_cases[of x] by linarith
qed

lemma rne_of_int [simp]: "rne (of_int n) = n"
  by (simp add: rne_def)

lemma rne_0 [simp]: "rne 0 = 0"
  using rne_of_int[of 0] by simp

lemma rnd32_0 [simp]: "rnd32 0 = 0"
  by (simp add: rnd32_def)

lemma rnd32_nonneg: "0 \<le> r \<Longrightarrow> 0 \<le> rnd32 r"
proof -
  assume "0 \<le> r"
  then have "of_int 0 \<le> r / pow2 (expo32 r - 23)"
    using pow2_pos[of "expo32 r - 23"] by (simp add: divide_nonneg_pos)
  then have "0 \<le> rne (r / pow2 (expo32 r - 23))" by (rule rne_ge)
  then show ?thesis by (simp add: rnd32_def mult_nonneg_nonneg)
qed

lemma floor_log2_bounds:
  assumes "0 < r"
  shows "pow2 \<lfloor>log 2 r\<rfloor> \<le> r" "r < pow2 (\<lfloor>log 2 r\<rfloor> + 1)"
  using floor_log_eq_powr_iff[of r 2 "\<lfloor>log 2 r\<rfloor>"] assms by (simp_all add: pow2_powr)

lemma floor_log2_le:
  assumes "0 < r" "r \<le> pow2 E"
  shows "\<lfloor>log 2 r\<rfloor> \<le> E"
proof -
  have "pow2 \<lfloor>log 2 r\<rfloor> \<le> pow2 E" using floor_log2_bounds(1)[OF assms(1)] assms(2) by linarith
  then show ?thesis by (simp add: pow2_powr)
qed

lemma floor_log2_ge:
  assumes "0 < r" "pow2 E \<le> r"
  shows "E \<le> \<lfloor>log 2 r\<rfloor>"
proof -
  have "pow2 E < pow2 (\<lfloor>log 2 r\<rfloor> + 1)" using floor_log2_bounds(2)[OF assms(1)] assms(2) by linarith
  then have "E < \<lfloor>log 2 r\<rfloor> + 1" by (simp add: pow2_powr)
  then show ?thesis by simp
qed

lemma rnd32_le_pow2:
  assumes "0 \<le> r" "r \<le> pow2 E" "- 149 \<le> E"
  shows "rnd32 r \<le> pow2 E"
proof (cases "r = 0")
  case True
  then show ?thesis using pow2_pos[of E] by (simp add: less_imp_le)
next
  case False
  then have pos: "0 < r" using assms(1) by simp
  define e where "e = expo32 r"
  have "e \<le> E + 23" using floor_log2_le[OF pos assms(2)] assms(3) by (simp add: e_def expo32_def)
  then have k: "0 \<le> E - e + 23" by simp
  have "pow2 E = pow2 (E - e + 23) * pow2 (e - 23)" by (simp add: pow2_add[symmetric])
  then have "r / pow2 (e - 23) \<le> pow2 (E - e + 23)"
    using assms(2) by (simp add: field_simps)
  then have "r / pow2 (e - 23) \<le> of_int (2 ^ nat (E - e + 23))" using pow2_nat[OF k] by simp
  then have "rne (r / pow2 (e - 23)) \<le> 2 ^ nat (E - e + 23)" by (rule rne_le)
  then have "(of_int (rne (r / pow2 (e - 23))) :: real) \<le> of_int (2 ^ nat (E - e + 23))"
    by (simp only: of_int_le_iff)
  then have "of_int (rne (r / pow2 (e - 23))) \<le> pow2 (E - e + 23)" using pow2_nat[OF k] by simp
  then have "of_int (rne (r / pow2 (e - 23))) * pow2 (e - 23) \<le> pow2 (E - e + 23) * pow2 (e - 23)"
    by (simp add: mult_right_mono less_imp_le)
  then show ?thesis by (simp add: rnd32_def e_def[symmetric] pow2_add[symmetric])
qed

lemma rnd32_ge_pow2:
  assumes "pow2 E \<le> r" "- 149 \<le> E"
  shows "pow2 E \<le> rnd32 r"
proof -
  have pos: "0 < r" using pow2_pos[of E] assms(1) by linarith
  define L where "L = \<lfloor>log 2 r\<rfloor>"
  define e where "e = expo32 r"
  have le: "E \<le> L" using floor_log2_ge[OF pos assms(1)] by (simp add: L_def)
  have e_alt: "e = max L (- 126)" by (simp add: e_def expo32_def L_def)
  define F where "F = (if - 126 \<le> L then L else E)"
  have F1: "E \<le> F" using le by (simp add: F_def)
  have F2: "pow2 F \<le> r" using floor_log2_bounds(1)[OF pos] assms(1) by (simp add: F_def L_def)
  have k: "0 \<le> F - e + 23" using assms(2) e_alt by (simp add: F_def max_def)
  have "pow2 F = pow2 (F - e + 23) * pow2 (e - 23)" by (simp add: pow2_add[symmetric])
  then have "pow2 (F - e + 23) \<le> r / pow2 (e - 23)"
    using F2 by (simp add: field_simps)
  then have "of_int (2 ^ nat (F - e + 23)) \<le> r / pow2 (e - 23)" using pow2_nat[OF k] by simp
  then have "2 ^ nat (F - e + 23) \<le> rne (r / pow2 (e - 23))" by (rule rne_ge)
  then have "(of_int (2 ^ nat (F - e + 23)) :: real) \<le> of_int (rne (r / pow2 (e - 23)))"
    by (simp only: of_int_le_iff)
  then have "pow2 (F - e + 23) \<le> of_int (rne (r / pow2 (e - 23)))" using pow2_nat[OF k] by simp
  then have "pow2 (F - e + 23) * pow2 (e - 23) \<le> of_int (rne (r / pow2 (e - 23))) * pow2 (e - 23)"
    by (simp add: mult_right_mono less_imp_le)
  then have "pow2 F \<le> rnd32 r" by (simp add: rnd32_def e_def[symmetric] pow2_add[symmetric])
  then show ?thesis using pow2_mono[OF F1] by linarith
qed

lemma pow2_0 [simp]: "pow2 0 = 1"
  by (simp add: pow2_def)

lemma rnd32_1 [simp]: "rnd32 1 = 1"
  using rnd32_le_pow2[of 1 0] rnd32_ge_pow2[of 0 1] by simp

lemma mk_cases: "0 \<le> r \<Longrightarrow> (\<exists>m. mk s r = Fin s m \<and> 0 \<le> m \<and> m = rnd32 r) \<or> mk s r = Inf s"
  by (simp add: mk_def rnd32_nonneg)

lemma pow2_128: "pow2 128 = 2 ^ 128"
  by (simp add: pow2_def)

lemma mk_le_pow2:
  assumes "0 \<le> r" "r \<le> pow2 E" "- 149 \<le> E" "E < 128"
  shows "\<exists>m. mk s r = Fin s m \<and> 0 \<le> m \<and> m \<le> pow2 E"
proof -
  have "rnd32 r \<le> pow2 E" by (rule rnd32_le_pow2[OF assms(1-3)])
  moreover have "pow2 E < pow2 128" using assms(4) by (rule pow2_strict_mono)
  ultimately have "rnd32 r < 2 ^ 128" unfolding pow2_128 by linarith
  then show ?thesis using rnd32_nonneg[OF assms(1)] \<open>rnd32 r \<le> pow2 E\<close> by (simp add: mk_def)
qed

lemma mk_0 [simp]: "mk s 0 = Fin s 0"
  by (simp add: mk_def)

lemma mk_1 [simp]: "mk s 1 = Fin s 1"
  by (simp add: mk_def)

section \<open>Ranges of the single-precision operations\<close>

lemma pow2_numerals: "pow2 1 = 2" "pow2 2 = 4" "pow2 3 = 8" "pow2 4 = 16" "pow2 5 = 32"
  "pow2 6 = 64" "pow2 7 = 128" "pow2 8 = 256"
  by (simp_all add: pow2_def)

lemma finnI_mk:
  assumes "0 \<le> r" "r \<le> pow2 E" "- 149 \<le> E" "E < 128"
  shows "finn (pow2 E) (mk False r)"
  using mk_le_pow2[OF assms, of False] by (simp add: finn_def)

lemma finn_mono: "finn A a \<Longrightarrow> A \<le> B \<Longrightarrow> finn B a"
  by (auto simp: finn_def)

lemma b32_of_int_0 [simp]: "b32_of_int 0 = Fin False 0"
  by (simp add: b32_of_int_def)

lemma b32_of_int_1: "b32_of_int 1 = Fin False 1"
  by (simp add: b32_of_int_def)

lemma b32_of_int_small:
  assumes "0 \<le> k" "k \<le> 4"
  shows "finn 4 (b32_of_int k)"
proof -
  have "finn (pow2 2) (mk False \<bar>of_int k\<bar>)"
    using assms by (intro finnI_mk) (simp_all add: pow2_numerals)
  then show ?thesis using assms by (simp add: b32_of_int_def pow2_numerals)
qed

lemma b32_of_int_byte:
  assumes "0 \<le> k" "k \<le> 255"
  shows "finn 256 (b32_of_int k)"
proof -
  have "finn (pow2 8) (mk False \<bar>of_int k\<bar>)"
    using assms by (intro finnI_mk) (simp_all add: pow2_numerals)
  then show ?thesis using assms by (simp add: b32_of_int_def pow2_numerals)
qed

lemma b32_of_int_255: "\<exists>m. b32_of_int 255 = Fin False m \<and> 128 \<le> m \<and> m \<le> 256"
proof -
  have "pow2 7 \<le> rnd32 255" by (rule rnd32_ge_pow2) (simp_all add: pow2_numerals)
  moreover have "rnd32 255 \<le> pow2 8" by (rule rnd32_le_pow2) (simp_all add: pow2_numerals)
  ultimately show ?thesis by (simp add: b32_of_int_def mk_def pow2_numerals)
qed

lemma normalise_finn: "finn 2 (normalise binary32 v)"
proof -
  have "0 \<le> uint v" "uint v \<le> 255" using unsigned_less[of v, where 'a = int] by simp_all
  from b32_of_int_byte[OF this] obtain a where a: "b32_of_int (uint v) = Fin False a" "0 \<le> a" "a \<le> 256"
    by (auto simp: finn_def)
  obtain b where b: "b32_of_int 255 = Fin False b" "128 \<le> b" "b \<le> 256"
    using b32_of_int_255 by blast
  have "a / b \<le> 2" using a b by (simp add: field_simps)
  then have "finn (pow2 1) (mk False (\<bar>a\<bar> / \<bar>b\<bar>))"
    using a b by (intro finnI_mk) (simp_all add: pow2_numerals)
  then show ?thesis using a b by (simp add: normalise_def binary32_def pow2_numerals)
qed

lemma b32_sub_self: "b32_sub (Fin s m) (Fin s m) = Fin False 0"
  by (simp add: b32_sub_def val_def)

lemma b32_sub_finn:
  assumes "finn 2 a" "finn 2 b"
  shows "fin_le 2 (b32_sub a b)"
proof -
  from assms obtain m n where mn: "a = Fin False m" "0 \<le> m" "m \<le> 2" "b = Fin False n" "0 \<le> n" "n \<le> 2"
    by (auto simp: finn_def)
  show ?thesis
  proof (cases "m - n = 0")
    case True
    then show ?thesis using mn by (auto simp: b32_sub_def val_def fin_le_def)
  next
    case False
    have "\<bar>m - n\<bar> \<le> pow2 1" using mn by (simp add: pow2_numerals)
    from mk_le_pow2[OF _ this, of "m - n < 0"]
    obtain k where "mk (m - n < 0) \<bar>m - n\<bar> = Fin (m - n < 0) k" "0 \<le> k" "k \<le> 2"
      by (auto simp: pow2_numerals)
    then show ?thesis using mn False by (auto simp: b32_sub_def val_def fin_le_def)
  qed
qed

lemma b32_pow2_fin_le:
  assumes "fin_le 2 d"
  shows "finn 4 (b32_pow d 2)"
proof -
  from assms obtain s m where d: "d = Fin s m" "0 \<le> m" "m \<le> 2" by (auto simp: fin_le_def)
  have "m ^ 2 \<le> 2 ^ 2" using d by (intro power_mono) simp_all
  then have "finn (pow2 2) (mk False (\<bar>m\<bar> ^ 2))"
    using d by (intro finnI_mk) (simp_all add: pow2_numerals)
  then show ?thesis using d by (simp add: pow2_numerals)
qed

lemma b32_pow2_zero [simp]: "b32_pow (Fin s 0) 2 = Fin False 0"
  by simp

lemma b32_add_finn:
  assumes "finn A a" "finn B b" "A + B \<le> pow2 E" "- 149 \<le> E" "E < 128"
  shows "finn (pow2 E) (b32_add a b)"
proof -
  from assms obtain m n where mn: "a = Fin False m" "0 \<le> m" "m \<le> A" "b = Fin False n" "0 \<le> n" "n \<le> B"
    by (auto simp: finn_def)
  show ?thesis
  proof (cases "m + n = 0")
    case True
    then show ?thesis using mn by (simp add: val_def finn_def less_imp_le)
  next
    case False
    have "finn (pow2 E) (mk False \<bar>m + n\<bar>)"
      using mn assms(3-5) by (intro finnI_mk) simp_all
    moreover have "\<not> m + n < 0" using mn by simp
    ultimately show ?thesis using mn False by (simp add: val_def)
  qed
qed

lemma b32_add_zero_zero [simp]: "b32_add (Fin False 0) (Fin False 0) = Fin False 0"
  by (simp add: val_def)

lemma b32_sqrt_finn:
  assumes "finn 64 a"
  shows "finn 8 (b32_sqrt a)"
proof -
  from assms obtain m where m: "a = Fin False m" "0 \<le> m" "m \<le> 64" by (auto simp: finn_def)
  show ?thesis
  proof (cases "m = 0")
    case True
    then show ?thesis using m by (simp add: finn_def)
  next
    case False
    have "sqrt m \<le> 8" using m by (intro real_le_lsqrt) simp_all
    then have "sqrt \<bar>m\<bar> \<le> pow2 3" using m by (simp add: pow2_numerals)
    then have "finn (pow2 3) (mk False (sqrt \<bar>m\<bar>))" by (intro finnI_mk) simp_all
    then show ?thesis using m False by (simp add: pow2_numerals)
  qed
qed

lemma b32_mul_fi:
  assumes "finn B a" "0 \<le> q"
  shows "fi (b32_mul a (Fin t q))"
proof -
  from assms obtain m where m: "a = Fin False m" "0 \<le> m" by (auto simp: finn_def)
  show ?thesis using m mk_cases[of "\<bar>m\<bar> * \<bar>q\<bar>" "False \<noteq> t"] by (auto simp: fi_def)
qed

lemma b32_square_nn:
  assumes "fi a"
  shows "nn (b32_mul a a)"
proof -
  from assms consider s m where "a = Fin s m" "0 \<le> m" | s where "a = Inf s" by (auto simp: fi_def)
  then show ?thesis
  proof cases
    case 1
    then show ?thesis using mk_cases[of "\<bar>m\<bar> * \<bar>m\<bar>" False] by (auto simp: nn_def)
  next
    case 2
    then show ?thesis by (simp add: nn_def)
  qed
qed

lemma b32_mhalf_np:
  assumes "nn a"
  shows "np (b32_mul (Fin True (1 / 2)) a)"
proof -
  from assms consider m where "a = Fin False m" "0 \<le> m" | "a = Inf False" by (auto simp: nn_def)
  then show ?thesis
  proof cases
    case 1
    then show ?thesis using mk_cases[of "\<bar>1 / 2\<bar> * \<bar>m\<bar>" True] by (auto simp: np_def)
  next
    case 2
    then show ?thesis by (simp add: np_def)
  qed
qed

lemma b32_exp_np:
  assumes "np a"
  shows "finn 1 (b32_exp a)"
proof -
  from assms consider m where "a = Fin True m" "0 \<le> m" | "a = Inf True" by (auto simp: np_def)
  then show ?thesis
  proof cases
    case 1
    have "exp (val True m) \<le> pow2 0" by (simp add: val_def)
    then have "finn (pow2 0) (mk False (exp (val True m)))" by (intro finnI_mk) simp_all
    then show ?thesis using 1 by simp
  next
    case 2
    then show ?thesis by (simp add: finn_def)
  qed
qed

lemma b32_mul_unit:
  assumes "finn 1 a" "finn 1 b"
  shows "finn 1 (b32_mul a b)"
proof -
  from assms obtain m n where mn: "a = Fin False m" "0 \<le> m" "m \<le> 1" "b = Fin False n" "0 \<le> n" "n \<le> 1"
    by (auto simp: finn_def)
  have "m * n \<le> 1 * 1" using mn by (intro mult_mono) simp_all
  then have "finn (pow2 0) (mk False (\<bar>m\<bar> * \<bar>n\<bar>))" using mn by (intro finnI_mk) simp_all
  then show ?thesis using mn by simp
qed

section \<open>The weights in single precision\<close>

lemma weight_of_binary32:
  "weight_of binary32 sD sR i j s c = b32_mul (gauss (domain_norm sD i j)) (gauss (range_norm sR s c))"
proof -
  obtain r g b where s: "s = (r, g, b)" by (cases s) auto
  obtain cr cg cb where c: "c = (cr, cg, cb)" by (cases c) auto
  show ?thesis
    unfolding s c
    by (simp only: weight_of_def binary32_def arith.select_convs Let_def gauss_def domain_norm_def
        range_norm_def prod.case)
qed

lemma rnd32_le_int:
  assumes "0 \<le> r" "r \<le> of_int k" "k < 2 ^ 24"
  shows "rnd32 r \<le> of_int k"
proof (cases "r = 0")
  case True
  then show ?thesis using assms by simp
next
  case False
  then have pos: "0 < r" using assms(1) by simp
  define e where "e = expo32 r"
  have "r < pow2 24" using assms(2,3) by (simp add: pow2_def)
  then have "\<lfloor>log 2 r\<rfloor> < 24"
    using floor_log2_bounds(1)[OF pos] pow2_mono[of 24 "\<lfloor>log 2 r\<rfloor>"] by linarith
  then have e: "e \<le> 23" by (simp add: e_def expo32_def)
  define n where "n = nat (23 - e)"
  have inv: "pow2 (e - 23) * pow2 (23 - e) = 1" using pow2_add[of "e - 23" "23 - e"] by simp
  have pn: "pow2 (23 - e) = of_int (2 ^ n)" using e by (simp add: pow2_nat n_def)
  have "r / pow2 (e - 23) = r * pow2 (23 - e)" using inv by (simp add: field_simps)
  also have "\<dots> \<le> of_int k * pow2 (23 - e)" using assms(2) by (intro mult_right_mono) simp_all
  also have "\<dots> = of_int (k * 2 ^ n)" by (simp add: pn)
  finally have "rne (r / pow2 (e - 23)) \<le> k * 2 ^ n" by (rule rne_le)
  then have "of_int (rne (r / pow2 (e - 23))) \<le> (of_int (k * 2 ^ n) :: real)" by linarith
  then have "of_int (rne (r / pow2 (e - 23))) * pow2 (e - 23) \<le> of_int (k * 2 ^ n) * pow2 (e - 23)"
    by (intro mult_right_mono) simp_all
  also have "\<dots> = of_int k * (pow2 (e - 23) * pow2 (23 - e))" by (simp add: pn)
  finally show ?thesis by (simp add: rnd32_def e_def[symmetric] inv)
qed

lemma val_0 [simp]: "val s 0 = 0"
  by (simp add: val_def)

lemma gauss_unit: "fi n \<Longrightarrow> finn 1 (gauss n)"
  unfolding gauss_def by (intro b32_exp_np b32_mhalf_np b32_square_nn)

lemma gauss_zero [simp]: "gauss (Fin s 0) = Fin False 1"
  by (simp add: gauss_def val_def)

lemma gauss_NaN [simp]: "gauss NaN = NaN"
  by (simp add: gauss_def)

lemma b32_mul_NaN [simp]: "b32_mul a NaN = NaN" "b32_mul NaN a = NaN"
  by (cases a; simp)+

lemma b32_add_NaN [simp]: "b32_add a NaN = NaN" "b32_add NaN a = NaN"
  by (cases a; simp)+

lemma zero_times_nonfinite: "\<not> is_finite R \<Longrightarrow> b32_mul (Fin s 0) R = NaN"
  by (cases R) (simp_all add: is_finite_def)

lemma finite_recip:
  assumes "is_finite (b32_div (b32_of_int 1) sigma)"
  shows "\<exists>t q. b32_div (b32_of_int 1) sigma = Fin t q \<and> 0 \<le> q"
proof (cases sigma)
  case (Fin s m)
  show ?thesis
  proof (cases "m = 0")
    case True
    then show ?thesis using assms Fin by (simp add: is_finite_def b32_of_int_1)
  next
    case False
    then show ?thesis using assms Fin mk_cases[of "\<bar>1\<bar> / \<bar>m\<bar>" "False \<noteq> s"]
      by (auto simp: is_finite_def b32_of_int_1)
  qed
next
  case (Inf s)
  then show ?thesis by (simp add: b32_of_int_1)
next
  case NaN
  then show ?thesis using assms by (simp add: is_finite_def b32_of_int_1)
qed

lemma domain_norm_fi:
  assumes "is_finite (b32_div (b32_of_int 1) sD)" "- 2 \<le> i" "i \<le> 2" "- 2 \<le> j" "j \<le> 2"
  shows "fi (domain_norm sD i j)"
proof -
  obtain t q where R: "b32_div (b32_of_int 1) sD = Fin t q" "0 \<le> q"
    using finite_recip[OF assms(1)] by blast
  have "\<bar>i\<bar> * \<bar>i\<bar> \<le> 2 * 2" "\<bar>j\<bar> * \<bar>j\<bar> \<le> 2 * 2"
    using assms(2-5) by (intro mult_mono; simp)+
  then have "i * i \<le> 4" "0 \<le> i * i" "j * j \<le> 4" "0 \<le> j * j"
    by (simp_all add: abs_mult_self_eq)
  then have "finn 4 (b32_of_int (i * i))" "finn 4 (b32_of_int (j * j))"
    by (simp_all add: b32_of_int_small)
  then have "finn (pow2 3) (b32_add (b32_of_int (i * i)) (b32_of_int (j * j)))"
    by (rule b32_add_finn) (simp_all add: pow2_numerals)
  then have "finn 64 (b32_add (b32_of_int (i * i)) (b32_of_int (j * j)))"
    by (rule finn_mono) (simp add: pow2_numerals)
  then have "finn 8 (b32_sqrt (b32_add (b32_of_int (i * i)) (b32_of_int (j * j))))"
    by (rule b32_sqrt_finn)
  then show ?thesis unfolding domain_norm_def R(1) using R(2) by (rule b32_mul_fi)
qed

lemma domain_norm_centre:
  "domain_norm sD 0 0 = b32_mul (Fin False 0) (b32_div (b32_of_int 1) sD)"
  by (simp add: domain_norm_def)

lemma range_norm_fi:
  assumes "is_finite (b32_div (b32_of_int 1) sR)" "unit3 s" "unit3 c"
  shows "fi (range_norm sR s c)"
proof -
  obtain t q where R: "b32_div (b32_of_int 1) sR = Fin t q" "0 \<le> q"
    using finite_recip[OF assms(1)] by blast
  obtain r g b where s: "s = (r, g, b)" by (cases s) auto
  obtain cr cg cb where c: "c = (cr, cg, cb)" by (cases c) auto
  have u: "finn 2 r" "finn 2 g" "finn 2 b" "finn 2 cr" "finn 2 cg" "finn 2 cb"
    using assms(2,3) by (simp_all add: unit3_def s c)
  have p: "finn 4 (b32_pow (b32_sub r cr) 2)" "finn 4 (b32_pow (b32_sub g cg) 2)"
    "finn 4 (b32_pow (b32_sub b cb) 2)"
    using u by (simp_all add: b32_pow2_fin_le b32_sub_finn)
  have "finn (pow2 3) (b32_add (b32_pow (b32_sub r cr) 2) (b32_pow (b32_sub g cg) 2))"
    using p(1,2) by (rule b32_add_finn) (simp_all add: pow2_numerals)
  then have "finn (pow2 4) (b32_add (b32_add (b32_pow (b32_sub r cr) 2) (b32_pow (b32_sub g cg) 2))
      (b32_pow (b32_sub b cb) 2))"
    using p(3) by (rule b32_add_finn) (simp_all add: pow2_numerals)
  then have "finn 64 (b32_add (b32_add (b32_pow (b32_sub r cr) 2) (b32_pow (b32_sub g cg) 2))
      (b32_pow (b32_sub b cb) 2))"
    by (rule finn_mono) (simp add: pow2_numerals)
  then have "finn 8 (b32_sqrt (b32_add (b32_add (b32_pow (b32_sub r cr) 2) (b32_pow (b32_sub g cg) 2))
      (b32_pow (b32_sub b cb) 2)))"
    by (rule b32_sqrt_finn)
  then have "fi (b32_mul (b32_sqrt (b32_add (b32_add (b32_pow (b32_sub r cr) 2) (b32_pow (b32_sub g cg) 2))
      (b32_pow (b32_sub b cb) 2))) (Fin t q))"
    using R(2) by (rule b32_mul_fi)
  then show ?thesis by (simp add: range_norm_def s c R(1))
qed

lemma range_norm_centre:
  assumes "unit3 c"
  shows "range_norm sR c c = b32_mul (Fin False 0) (b32_div (b32_of_int 1) sR)"
proof -
  obtain cr cg cb where c: "c = (cr, cg, cb)" by (cases c) auto
  from assms obtain a b d where "cr = Fin False a" "cg = Fin False b" "cb = Fin False d"
    by (auto simp: unit3_def c finn_def)
  then show ?thesis by (simp add: range_norm_def c b32_sub_self)
qed

lemma weight_unit:
  assumes "is_finite (b32_div (b32_of_int 1) sD)" "is_finite (b32_div (b32_of_int 1) sR)"
    "- 2 \<le> i" "i \<le> 2" "- 2 \<le> j" "j \<le> 2" "unit3 s" "unit3 c"
  shows "finn 1 (weight_of binary32 sD sR i j s c)"
  unfolding weight_of_binary32
  by (intro b32_mul_unit gauss_unit domain_norm_fi range_norm_fi assms)

lemma weight_centre:
  assumes "is_finite (b32_div (b32_of_int 1) sD)" "is_finite (b32_div (b32_of_int 1) sR)" "unit3 c"
  shows "weight_of binary32 sD sR 0 0 c c = Fin False 1"
proof -
  obtain t q where D: "b32_div (b32_of_int 1) sD = Fin t q" using finite_recip[OF assms(1)] by blast
  obtain t' q' where R: "b32_div (b32_of_int 1) sR = Fin t' q'" using finite_recip[OF assms(2)] by blast
  show ?thesis
    by (simp add: weight_of_binary32 domain_norm_centre range_norm_centre[OF assms(3)] D R)
qed

lemma weight_NaN:
  assumes "\<not> is_finite (b32_div (b32_of_int 1) sD) \<or> \<not> is_finite (b32_div (b32_of_int 1) sR)" "unit3 c"
  shows "weight_of binary32 sD sR 0 0 c c = NaN"
  using assms(1)
  by (auto simp: weight_of_binary32 domain_norm_centre range_norm_centre[OF assms(2)]
      zero_times_nonfinite)

lemma b32_add_count:
  assumes "0 \<le> m" "m \<le> of_int k" "finn 1 b" "k + 1 < 2 ^ 24"
  shows "\<exists>m'. b32_add (Fin False m) b = Fin False m' \<and> 0 \<le> m' \<and> m' \<le> of_int (k + 1)
           \<and> (1 \<le> m \<or> b = Fin False 1 \<longrightarrow> 1 \<le> m')"
proof -
  from assms(3) obtain n where n: "b = Fin False n" "0 \<le> n" "n \<le> 1" by (auto simp: finn_def)
  show ?thesis
  proof (cases "m + n = 0")
    case True
    then have "m = 0" "n = 0" using assms(1) n(2) by linarith+
    then show ?thesis using n assms(2) by (simp add: val_def)
  next
    case False
    have nn: "0 \<le> m + n" using assms(1) n(2) by simp
    have le: "m + n \<le> of_int (k + 1)" using assms(2) n(3) by simp
    have up: "rnd32 (m + n) \<le> of_int (k + 1)" using nn le assms(4) by (rule rnd32_le_int)
    have "of_int (k + 1) < (2::real) ^ 24"
      using assms(4) by (metis of_int_less_numeral_power_cancel_iff)
    also have "\<dots> < 2 ^ 128" by simp
    finally have fin: "rnd32 (m + n) < 2 ^ 128" using up by linarith
    have low: "1 \<le> rnd32 (m + n)" if "1 \<le> m \<or> b = Fin False 1"
    proof -
      have "pow2 0 \<le> m + n" using that n assms(1) by auto
      then have "pow2 0 \<le> rnd32 (m + n)" by (rule rnd32_ge_pow2) simp
      then show ?thesis by simp
    qed
    have "b32_add (Fin False m) b = Fin False (rnd32 (m + n))"
      using False nn fin assms(1) n(2) by (simp add: n(1) val_def mk_def abs_of_nonneg)
    then show ?thesis using up low rnd32_nonneg[OF nn] by simp
  qed
qed

lemma foldl_b32_add_count:
  assumes "\<forall>w \<in> set ws. finn 1 w" "0 \<le> m" "m \<le> of_int k" "k + int (length ws) < 2 ^ 24"
  shows "\<exists>m'. foldl b32_add (Fin False m) ws = Fin False m' \<and> 0 \<le> m'
           \<and> m' \<le> of_int (k + int (length ws))
           \<and> (1 \<le> m \<or> Fin False 1 \<in> set ws \<longrightarrow> 1 \<le> m')"
  using assms
proof (induction ws arbitrary: m k)
  case Nil
  then show ?case by simp
next
  case (Cons w ws)
  have w: "finn 1 w" using Cons.prems(1) by simp
  have k: "k + 1 < 2 ^ 24" using Cons.prems(4) by simp
  from b32_add_count[OF Cons.prems(2,3) w k]
  obtain m1 where m1: "b32_add (Fin False m) w = Fin False m1" "0 \<le> m1" "m1 \<le> of_int (k + 1)"
    "1 \<le> m \<or> w = Fin False 1 \<longrightarrow> 1 \<le> m1" by blast
  have "\<forall>w \<in> set ws. finn 1 w" using Cons.prems(1) by simp
  moreover have "k + 1 + int (length ws) < 2 ^ 24" using Cons.prems(4) by simp
  ultimately obtain m' where m': "foldl b32_add (Fin False m1) ws = Fin False m'" "0 \<le> m'"
    "m' \<le> of_int (k + 1 + int (length ws))" "1 \<le> m1 \<or> Fin False 1 \<in> set ws \<longrightarrow> 1 \<le> m'"
    using Cons.IH[OF _ m1(2,3)] by blast
  have "1 \<le> m'" if "1 \<le> m \<or> Fin False 1 \<in> set (w # ws)"
    using that m1(4) m'(4) by auto
  then show ?case using m1(1) m'(1,2,3) by (simp add: add.assoc)
qed

lemma foldl_b32_add_NaN_start [simp]: "foldl b32_add NaN ws = NaN"
  by (induction ws) simp_all

lemma foldl_b32_add_NaN: "NaN \<in> set ws \<Longrightarrow> foldl b32_add a ws = NaN"
  by (induction ws arbitrary: a) auto

lemma unit3_samples:
  "unit3 (spec_sample binary32 input w h x y off 0, spec_sample binary32 input w h x y off 1,
          spec_sample binary32 input w h x y off 2)"
  using normalise_finn by (cases off) (simp add: unit3_def spec_sample_def normalise_def)

lemma unit3_centre: "unit3 (centre_sample binary32 input w x y)"
  using normalise_finn by (simp add: unit3_def centre_sample_def)

lemma coeff_binary32:
  assumes dims: "0 < w" "0 < h" "4 * w * h \<le> int (length input)"
    and px: "0 \<le> x" "x < w" "0 \<le> y" "y < h"
  shows "\<exists>k. map_option coeff
           (neighbourhood binary32 sD sR input w h x y (centre_sample binary32 input w x y)) = Some k \<and>
         (if is_finite (b32_div (b32_of_int 1) sD) \<and> is_finite (b32_div (b32_of_int 1) sR)
          then \<exists>m. k = Fin False m \<and> 1 \<le> m \<and> m \<le> 25 else k = NaN)"
proof -
  let ?c = "centre_sample binary32 input w x y"
  let ?W = "sample_weight binary32 sD sR input w h x y ?c"
  have k: "map_option coeff (neighbourhood binary32 sD sR input w h x y ?c)
      = Some (foldl b32_add (Fin False 0) (map ?W spec_offsets))"
    using neighbourhood_coeff[OF dims, of binary32 sD sR x y ?c] by (simp add: binary32_def)
  have mem: "(0, 0) \<in> set spec_offsets" using spec_offsets_all by simp
  have W0: "?W (0, 0) = weight_of binary32 sD sR 0 0 ?c ?c"
    by (simp add: sample_weight_def centre_sample_eq[OF px])
  show ?thesis
  proof (cases "is_finite (b32_div (b32_of_int 1) sD) \<and> is_finite (b32_div (b32_of_int 1) sR)")
    case True
    have "finn 1 (?W off)" if "off \<in> set spec_offsets" for off
    proof -
      obtain i j where off: "off = (i, j)" by (cases off) auto
      have "- 2 \<le> i" "i \<le> 2" "- 2 \<le> j" "j \<le> 2" using that spec_offsets_all by (simp_all add: off)
      then show ?thesis
        unfolding off sample_weight_def prod.case
        using True by (intro weight_unit unit3_samples unit3_centre) simp_all
    qed
    then have all: "\<forall>v \<in> set (map ?W spec_offsets). finn 1 v" by auto
    have "?W (0, 0) = Fin False 1" using True by (simp add: W0 weight_centre unit3_centre)
    then have one: "Fin False 1 \<in> set (map ?W spec_offsets)" using mem by force
    have len: "int (length (map ?W spec_offsets)) = 25" using spec_offsets_all by simp
    from foldl_b32_add_count[OF all, of 0 0] one len
    obtain m where "foldl b32_add (Fin False 0) (map ?W spec_offsets) = Fin False m" "1 \<le> m" "m \<le> 25"
      by auto
    then show ?thesis using k True by auto
  next
    case False
    then have "?W (0, 0) = NaN" by (simp add: W0 weight_NaN unit3_centre)
    then have "NaN \<in> set (map ?W spec_offsets)" using mem by force
    then have "foldl b32_add (Fin False 0) (map ?W spec_offsets) = NaN" by (rule foldl_b32_add_NaN)
    then show ?thesis using k False by auto
  qed
qed

lemma centre_weight_binary32:
  assumes "0 \<le> x" "x < w" "0 \<le> y" "y < h"
  shows "sample_weight binary32 sD sR input w h x y (centre_sample binary32 input w x y) (0, 0)
    = (if is_finite (b32_div (b32_of_int 1) sD) \<and> is_finite (b32_div (b32_of_int 1) sR)
       then Fin False 1 else NaN)"
proof -
  let ?c = "centre_sample binary32 input w x y"
  have W0: "sample_weight binary32 sD sR input w h x y ?c (0, 0) = weight_of binary32 sD sR 0 0 ?c ?c"
    by (simp add: sample_weight_def centre_sample_eq[OF assms])
  show ?thesis
  proof (cases "is_finite (b32_div (b32_of_int 1) sD) \<and> is_finite (b32_div (b32_of_int 1) sR)")
    case True
    then show ?thesis by (simp add: W0 weight_centre unit3_centre)
  next
    case False
    then have "weight_of binary32 sD sR 0 0 ?c ?c = NaN"
      by (intro weight_NaN unit3_centre) blast
    then show ?thesis using False W0 by simp
  qed
qed

lemma recip_finite:
  assumes "1 / 2 ^ 126 \<le> m"
  shows "is_finite (b32_div (b32_of_int 1) (Fin s m))"
proof -
  have "(0::real) < 1 / 2 ^ 126" by simp
  then have pos: "0 < m" using assms by linarith
  have "1 / m \<le> 2 ^ 126" using assms pos by (simp add: field_simps)
  then have "\<bar>1\<bar> / \<bar>m\<bar> \<le> pow2 126" using pos by (simp add: pow2_def)
  from mk_le_pow2[OF _ this, of "False \<noteq> s"] pos show ?thesis
    by (auto simp: is_finite_def b32_of_int_1)
qed

lemma recip_zero: "b32_div (b32_of_int 1) (Fin s 0) = Inf s"
  by (simp add: b32_of_int_1)

lemma recip_tiny:
  assumes "0 < m" "m \<le> 1 / 2 ^ 128"
  shows "b32_div (b32_of_int 1) (Fin s m) = Inf s"
proof -
  have "2 ^ 128 \<le> 1 / m" using assms by (simp add: field_simps)
  then have "pow2 128 \<le> \<bar>1\<bar> / \<bar>m\<bar>" using assms(1) by (simp add: pow2_128)
  then have "pow2 128 \<le> rnd32 (\<bar>1\<bar> / \<bar>m\<bar>)" by (rule rnd32_ge_pow2) simp
  then show ?thesis using assms(1) by (simp add: b32_of_int_1 mk_def pow2_128)
qed

section \<open>Evaluating a rounding\<close>

text \<open>
  A nonnegative real \<open>r\<close> in the binade \<open>[2^e, 2^(e+1))\<close> rounds to \<open>N * 2^(e-23)\<close> when
  \<open>r / 2^(e-23)\<close> is within one half of \<open>N\<close>, ties going to the even \<open>N\<close>.  The rules below
  reduce one operation on concrete values to arithmetic on rationals.
\<close>

lemma rne_eqI:
  assumes "\<bar>x - of_int N\<bar> < 1 / 2 \<or> (\<bar>x - of_int N\<bar> = 1 / 2 \<and> even N)"
  shows "rne x = N"
proof -
  consider "of_int N \<le> x" "x < of_int N + 1 / 2" | "x < of_int N" "of_int N - 1 / 2 < x"
    | "x = of_int N + 1 / 2" "even N" | "x = of_int N - 1 / 2" "even N"
    using assms by (auto simp: abs_if split: if_splits) 
  then show ?thesis
  proof cases
    case 1
    then have "\<lfloor>x\<rfloor> = N" by linarith
    then show ?thesis using 1 by (simp add: rne_def)
  next
    case 2
    then have "\<lfloor>x\<rfloor> = N - 1" by linarith
    then show ?thesis using 2 by (simp add: rne_def)
  next
    case 3
    then have "\<lfloor>x\<rfloor> = N" by linarith
    then show ?thesis using 3 by (simp add: rne_def)
  next
    case 4
    then have "\<lfloor>x\<rfloor> = N - 1" by linarith
    then show ?thesis using 4 by (simp add: rne_def)
  qed
qed

lemma expo32_eqI:
  assumes "- 126 \<le> e" "pow2 e \<le> r" "r < pow2 (e + 1)"
  shows "expo32 r = e"
proof -
  have pos: "0 < r" using pow2_pos[of e] assms(2) by linarith
  have "\<lfloor>log 2 r\<rfloor> = e"
    using floor_log2_le[OF pos, of "e + 1"] floor_log2_ge[OF pos assms(2)] assms(3)
      floor_log2_bounds(1)[OF pos] pow2_mono[of "e + 1" "\<lfloor>log 2 r\<rfloor>"] by linarith
  then show ?thesis using assms(1) by (simp add: expo32_def)
qed

lemma rnd32_eval:
  assumes "- 126 \<le> e" "pow2 e \<le> r" "r < pow2 (e + 1)"
    and "\<bar>r / pow2 (e - 23) - of_int N\<bar> < 1 / 2
         \<or> (\<bar>r / pow2 (e - 23) - of_int N\<bar> = 1 / 2 \<and> even N)"
  shows "rnd32 r = of_int N * pow2 (e - 23)"
  by (simp add: rnd32_def expo32_eqI[OF assms(1-3)] rne_eqI[OF assms(4)])

lemma mk_evalI:
  assumes "- 126 \<le> e" "e < 127" "pow2 e \<le> r" "r < pow2 (e + 1)"
    and "\<bar>r / pow2 (e - 23) - of_int N\<bar> < 1 / 2
         \<or> (\<bar>r / pow2 (e - 23) - of_int N\<bar> = 1 / 2 \<and> even N)"
    and "c = of_int N * pow2 (e - 23)"
  shows "mk s r = Fin s c"
proof -
  have v: "rnd32 r = c" using rnd32_eval[OF assms(1,3,4,5)] assms(6) by simp
  have "0 \<le> r" using pow2_pos[of e] assms(3) by linarith
  then have "rnd32 r \<le> pow2 (e + 1)" using assms(1,4) by (intro rnd32_le_pow2) simp_all
  moreover have "pow2 (e + 1) < pow2 128" using assms(2) by (intro pow2_strict_mono) simp
  ultimately have "rnd32 r < 2 ^ 128" unfolding pow2_128 by linarith
  then show ?thesis using v by (simp add: mk_def)
qed

lemma mk_betweenI:
  assumes "L < r" "r < U"
    and "- 126 \<le> e" "e < 127" "pow2 e \<le> L" "U \<le> pow2 (e + 1)"
    and "(of_int N - 1 / 2) * pow2 (e - 23) \<le> L" "U \<le> (of_int N + 1 / 2) * pow2 (e - 23)"
    and "c = of_int N * pow2 (e - 23)"
  shows "mk s r = Fin s c"
proof (rule mk_evalI[OF assms(3,4) _ _ _ assms(9)])
  show "pow2 e \<le> r" using assms(1,5) by linarith
  show "r < pow2 (e + 1)" using assms(2,6) by linarith
  have "(of_int N - 1 / 2) * pow2 (e - 23) < r" "r < (of_int N + 1 / 2) * pow2 (e - 23)"
    using assms(1,2,7,8) by linarith+
  then have "of_int N - 1 / 2 < r / pow2 (e - 23)" "r / pow2 (e - 23) < of_int N + 1 / 2"
    by (simp_all add: pos_less_divide_eq pos_divide_less_eq)
  then have "\<bar>r / pow2 (e - 23) - of_int N\<bar> < 1 / 2" by linarith
  then show "\<bar>r / pow2 (e - 23) - of_int N\<bar> < 1 / 2
         \<or> (\<bar>r / pow2 (e - 23) - of_int N\<bar> = 1 / 2 \<and> even N)"
    by blast
qed

lemma exp_taylor_bounds:
  fixes x :: real
  assumes "x < 0"
  shows "(\<Sum>m<2 * k. x ^ m / fact m) < exp x" "exp x < (\<Sum>m<2 * k + 1. x ^ m / fact m)"
proof -
  obtain t where t: "exp x = (\<Sum>m<2 * k. x ^ m / fact m) + (exp t / fact (2 * k)) * x ^ (2 * k)"
    using Maclaurin_exp_le[of x "2 * k"] by blast
  have "0 < x ^ (2 * k)" using assms by (simp add: power_mult)
  then have "0 < (exp t / fact (2 * k)) * x ^ (2 * k)" by (simp add: zero_less_mult_iff)
  then show "(\<Sum>m<2 * k. x ^ m / fact m) < exp x" using t by linarith
  obtain u where u: "exp x = (\<Sum>m<2 * k + 1. x ^ m / fact m) + (exp u / fact (2 * k + 1)) * x ^ (2 * k + 1)"
    using Maclaurin_exp_le[of x "2 * k + 1"] by blast
  have "x ^ (2 * k + 1) < 0" using assms \<open>0 < x ^ (2 * k)\<close> by (simp add: mult_neg_pos)
  moreover have "0 < exp u / fact (2 * k + 1)" by simp
  ultimately have "(exp u / fact (2 * k + 1)) * x ^ (2 * k + 1) < 0" by (rule mult_pos_neg[rotated])
  then show "exp x < (\<Sum>m<2 * k + 1. x ^ m / fact m)" using u by linarith
qed

lemma exp_lower_sum: "exp_lower x = (\<Sum>m<2 * 5. x ^ m / fact m)"
  by (simp add: exp_lower_def eval_nat_numeral field_simps)

lemma exp_upper_sum: "exp_upper x = (\<Sum>m<2 * 5 + 1. x ^ m / fact m)"
  by (simp add: exp_upper_def eval_nat_numeral field_simps)

lemma exp_between:
  assumes "x < 0"
  shows "exp_lower x < exp x" "exp x < exp_upper x"
  using exp_taylor_bounds[OF assms, of 5] by (simp_all only: exp_lower_sum exp_upper_sum)

lemma b32_exp_evalI:
  assumes "0 < h"
    and "- 126 \<le> e" "e < 127" "pow2 e \<le> exp_lower (- h)" "exp_upper (- h) \<le> pow2 (e + 1)"
    and "(of_int N - 1 / 2) * pow2 (e - 23) \<le> exp_lower (- h)"
    and "exp_upper (- h) \<le> (of_int N + 1 / 2) * pow2 (e - 23)"
    and "c = of_int N * pow2 (e - 23)"
  shows "b32_exp (Fin True h) = Fin False c"
proof -
  have neg: "- h < 0" using assms(1) by simp
  have "mk False (exp (- h)) = Fin False c"
    by (rule mk_betweenI[OF exp_between(1)[OF neg] exp_between(2)[OF neg] assms(2-8)])
  then show ?thesis using assms(1) by (simp add: val_def)
qed

lemma b32_add_evalI:
  assumes "0 \<le> a" "0 \<le> b" "a + b \<noteq> 0" "mk False (a + b) = Fin False c"
  shows "b32_add (Fin False a) (Fin False b) = Fin False c"
proof -
  have "\<not> a + b < 0" using assms(1,2) by simp
  then show ?thesis using assms by (simp add: val_def abs_of_nonneg)
qed

lemma b32_mul_evalI:
  assumes "u = (s \<noteq> t)" "0 \<le> a" "0 \<le> b" "mk u (a * b) = Fin u c"
  shows "b32_mul (Fin s a) (Fin t b) = Fin u c"
  using assms by (simp add: abs_of_nonneg)

lemma b32_div_evalI:
  assumes "0 \<le> a" "0 < b" "mk False (a / b) = Fin False c"
  shows "b32_div (Fin False a) (Fin False b) = Fin False c"
  using assms by (simp add: abs_of_nonneg)

lemma b32_sqrt_exactI:
  assumes "0 < c" "q = c * c" "mk False c = Fin False c"
  shows "b32_sqrt (Fin False q) = Fin False c"
proof -
  have "sqrt \<bar>q\<bar> = c" using assms(1,2) by (simp add: abs_mult)
  then show ?thesis using assms by simp
qed

lemma b32_sqrt_evalI:
  assumes "0 < q" "- 126 \<le> e" "e < 127"
    and "pow2 e \<le> (of_int N - 1 / 2) * pow2 (e - 23)"
    and "(of_int N + 1 / 2) * pow2 (e - 23) \<le> pow2 (e + 1)"
    and "((of_int N - 1 / 2) * pow2 (e - 23))\<^sup>2 < q"
    and "q < ((of_int N + 1 / 2) * pow2 (e - 23))\<^sup>2"
    and "c = of_int N * pow2 (e - 23)"
  shows "b32_sqrt (Fin False q) = Fin False c"
proof -
  have L: "0 \<le> (of_int N - 1 / 2) * pow2 (e - 23)"
    using pow2_pos[of e] assms(4) by linarith
  have "(of_int N + 1 / 2) * pow2 (e - 23) = (of_int N - 1 / 2) * pow2 (e - 23) + pow2 (e - 23)"
    by (simp add: algebra_simps)
  then have U: "0 \<le> (of_int N + 1 / 2) * pow2 (e - 23)"
    using L pow2_pos[of "e - 23"] by linarith
  have lo: "(of_int N - 1 / 2) * pow2 (e - 23) < sqrt q"
    using assms(6) by (rule real_less_rsqrt)
  have hi: "sqrt q < (of_int N + 1 / 2) * pow2 (e - 23)"
    using assms(1,7) U by (intro real_less_lsqrt) simp_all
  have "mk False (sqrt q) = Fin False c"
    by (rule mk_betweenI[OF lo hi assms(2,3,4,5) order_refl order_refl assms(8)])
  then show ?thesis using assms(1) by simp
qed

lemma b32_sqrt_zero: "b32_sqrt (Fin False 0) = Fin False 0"
  by simp

lemma b32_mul_zero_left: "b32_mul (Fin False 0) (Fin False b) = Fin False 0"
  by simp

section \<open>The filter in the code's operations\<close>



lemma reference_byte_centre:
  assumes dims: "0 < w" "0 < h" "4 * w * h \<le> int (length input)"
    and xy: "0 \<le> x" "x < w" "0 \<le> y" "y < h" and c: "0 \<le> c" "c < 3"
    and nb: "neighbourhood ops sD sR input w h x y (centre_sample ops input w x y) = Some a"
  shows "reference_byte ops sD sR input w h x y c
    = Some (quantise ops (if c = 0 then sr a else if c = 1 then sg a else sb a) (coeff a))"
proof -
  have rd: "rd input ((x + y * w) * 4 + d) = Some (input ! nat ((x + y * w) * 4 + d))"
    if "0 \<le> d" "d < 4" for d
    using channel_index_bounds[OF xy that dims(3)] by (simp add: rd_def)
  show ?thesis
    using reference_byte_rgb[OF rd[of 0] rd[of 1] rd[of 2], of ops sD sR h a c] nb c
    by (simp add: centre_sample_def)
qed


section \<open>Flat images: one byte for all pixels\<close>

lemma flat_sample:
  assumes "0 < w" "0 < h" "flat_image input w h v" "0 \<le> c" "c < 3"
  shows "spec_sample ops input w h x y off c = normalise ops v"
proof -
  obtain i j where off: "off = (i, j)" by (cases off) auto
  define x' y' where "x' = spec_clamp 0 (w - 1) (x + i)" and "y' = spec_clamp 0 (h - 1) (y + j)"
  have b: "0 \<le> x'" "x' < w" "0 \<le> y'" "y' < h"
    using assms(1,2) by (simp_all add: x'_def y'_def spec_clamp_def)
  have "input ! nat ((x' + y' * w) * 4 + c) = v"
    using pixel_index_bounds[OF b] assms(3,4,5) unfolding flat_image_def by blast
  then show ?thesis by (simp add: spec_sample_def off normalise_def x'_def y'_def)
qed

lemma flat_centre:
  assumes "0 < w" "0 < h" "flat_image input w h v" "0 \<le> x" "x < w" "0 \<le> y" "y < h"
  shows "centre_sample ops input w x y = (normalise ops v, normalise ops v, normalise ops v)"
  unfolding centre_sample_eq[OF assms(4-7), symmetric]
  using flat_sample[OF assms(1-3), of _ ops x y "(0, 0)"] by simp

lemma flat_reference_byte:
  assumes dims: "0 < w" "0 < h" "4 * w * h \<le> int (length input)"
    and flat: "flat_image input w h v"
    and xy: "0 \<le> x" "x < w" "0 \<le> y" "y < h" and c: "0 \<le> c" "c < 3"
  shows "reference_byte ops sD sR input w h x y c = Some (flat_byte ops sD sR v)"
proof -
  let ?n = "normalise ops v"
  let ?W = "flat_weight ops sD sR v"
  let ?S = "spec_sample ops input w h x y"
  let ?a = "foldl (acc_step ops ?W ?S) (zero_acc ops) spec_offsets"
  have S: "?S off d = ?n" if "0 \<le> d" "d < 3" for off d
    by (rule flat_sample[OF dims(1,2) flat that])
  have W: "sample_weight ops sD sR input w h x y (centre_sample ops input w x y) = ?W"
  proof (rule ext)
    fix off :: "int \<times> int"
    show "sample_weight ops sD sR input w h x y (centre_sample ops input w x y) off = ?W off"
      by (cases off)
        (simp add: sample_weight_def flat_weight_def flat_centre[OF dims(1,2) flat xy] S)
  qed
  have nb: "neighbourhood ops sD sR input w h x y (centre_sample ops input w x y) = Some ?a"
    by (simp only: neighbourhood_fold[OF dims] W)
  have rb: "reference_byte ops sD sR input w h x y c
    = Some (quantise ops (if c = 0 then sr ?a else if c = 1 then sg ?a else sb ?a) (coeff ?a))"
    by (rule reference_byte_centre[OF dims xy c nb])
  consider "c = 0" | "c = 1" | "c = 2" using c by linarith
  then show ?thesis
  proof cases
    case 1
    then show ?thesis using rb by (simp add: foldl_acc_step flat_byte_def zero_acc_def S)
  next
    case 2
    then show ?thesis using rb by (simp add: foldl_acc_step flat_byte_def zero_acc_def S)
  next
    case 3
    then show ?thesis using rb by (simp add: foldl_acc_step flat_byte_def zero_acc_def S)
  qed
qed

lemma flat_runReference:
  assumes "0 < w" "0 < h"
    and "4 * w * h \<le> int (length input)" "4 * w * h \<le> int (length out0)"
    and "flat_image input w h v"
  shows "\<exists>out. runReference ops sD sR input out0 w h = Some out \<and> length out = length out0 \<and>
           (\<forall>x y. 0 \<le> x \<and> x < w \<and> 0 \<le> y \<and> y < h \<longrightarrow>
              (\<forall>c. 0 \<le> c \<and> c < 3 \<longrightarrow>
                 rd out ((x + y * w) * 4 + c) = Some (flat_byte ops sD sR v)) \<and>
              rd out ((x + y * w) * 4 + 3) = Some (input ! nat ((x + y * w) * 4 + 3)))"
proof -
  have dims: "0 \<le> w" "0 \<le> h" using assms(1,2) by simp_all
  obtain out where out: "runReference ops sD sR input out0 w h = Some out" "length out = length out0"
    and px: "\<And>x y c. 0 \<le> x \<and> x < w \<and> 0 \<le> y \<and> y < h \<and> 0 \<le> c \<and> c < 4 \<Longrightarrow>
      rd out ((x + y * w) * 4 + c) = reference_byte ops sD sR input w h x y c"
    using runReference_pixels[OF dims assms(3,4), where ops = ops and sD = sD and sR = sR] by blast
  have rgb: "rd out ((x + y * w) * 4 + c) = Some (flat_byte ops sD sR v)"
    if "0 \<le> x" "x < w" "0 \<le> y" "y < h" "0 \<le> c" "c < 3" for x y c
    using px[of x y c] that flat_reference_byte[OF assms(1,2,3,5) that] by simp
  have alpha: "rd out ((x + y * w) * 4 + 3) = Some (input ! nat ((x + y * w) * 4 + 3))"
    if "0 \<le> x" "x < w" "0 \<le> y" "y < h" for x y
  proof -
    have "rd input ((x + y * w) * 4 + 3) = Some (input ! nat ((x + y * w) * 4 + 3))"
      using channel_index_bounds[OF that _ _ assms(3), of 3] by (simp add: rd_def)
    then show ?thesis using px[of x y 3] that by (simp add: reference_byte_def)
  qed
  show ?thesis using out rgb alpha by blast
qed

lemma flat_image_2x2:
  "flat_image [v, v, v, a0, v, v, v, a1, v, v, v, a2, v, v, v, a3] 2 2 v"
proof -
  have "[v, v, v, a0, v, v, v, a1, v, v, v, a2, v, v, v, a3] ! nat (p * 4 + c) = v"
    if "0 \<le> p" "p < 2 * 2" "0 \<le> c" "c < 3" for p c :: int
  proof -
    have "p = 0 \<or> p = 1 \<or> p = 2 \<or> p = 3" "c = 0 \<or> c = 1 \<or> c = 2" using that by auto
    then show ?thesis by auto
  qed
  then show ?thesis unfolding flat_image_def by blast
qed

lemma flat_output_2x2:
  assumes "length out0 = 16"
  shows "runReference ops sD sR [v, v, v, a0, v, v, v, a1, v, v, v, a2, v, v, v, a3] out0 2 2
    = Some [flat_byte ops sD sR v, flat_byte ops sD sR v, flat_byte ops sD sR v, a0,
            flat_byte ops sD sR v, flat_byte ops sD sR v, flat_byte ops sD sR v, a1,
            flat_byte ops sD sR v, flat_byte ops sD sR v, flat_byte ops sD sR v, a2,
            flat_byte ops sD sR v, flat_byte ops sD sR v, flat_byte ops sD sR v, a3]"
proof -
  let ?in = "[v, v, v, a0, v, v, v, a1, v, v, v, a2, v, v, v, a3]"
  let ?b = "flat_byte ops sD sR v"
  let ?res = "[?b, ?b, ?b, a0, ?b, ?b, ?b, a1, ?b, ?b, ?b, a2, ?b, ?b, ?b, a3]"
  have l: "4 * 2 * 2 \<le> int (length ?in)" "4 * 2 * 2 \<le> int (length out0)" using assms by simp_all
  have z: "(0::int) < 2" by simp
  from flat_runReference[OF z z l flat_image_2x2, of ops sD sR]
  obtain out where out: "runReference ops sD sR ?in out0 2 2 = Some out" "length out = length out0"
    and rgb: "\<And>x y c. 0 \<le> x \<and> x < 2 \<and> 0 \<le> y \<and> y < 2 \<Longrightarrow> 0 \<le> c \<and> c < 3 \<Longrightarrow>
        rd out ((x + y * 2) * 4 + c) = Some ?b"
    and alpha: "\<And>x y. 0 \<le> x \<and> x < 2 \<and> 0 \<le> y \<and> y < 2 \<Longrightarrow>
        rd out ((x + y * 2) * 4 + 3) = Some (?in ! nat ((x + y * 2) * 4 + 3))"
    by blast
  have "rd out k = rd ?res k" for k
  proof (cases "0 \<le> k \<and> k < 16")
    case True
    then have "k = 0 \<or> k = 1 \<or> k = 2 \<or> k = 3 \<or> k = 4 \<or> k = 5 \<or> k = 6 \<or> k = 7
      \<or> k = 8 \<or> k = 9 \<or> k = 10 \<or> k = 11 \<or> k = 12 \<or> k = 13 \<or> k = 14 \<or> k = 15"
      by presburger
    then consider "k = 0" | "k = 1" | "k = 2" | "k = 3" | "k = 4" | "k = 5" | "k = 6" | "k = 7"
      | "k = 8" | "k = 9" | "k = 10" | "k = 11" | "k = 12" | "k = 13" | "k = 14" | "k = 15"
      by blast
    then show ?thesis
    proof cases
      case 1 then show ?thesis using rgb[of 0 0 0] by (simp add: rd_def)
    next
      case 2 then show ?thesis using rgb[of 0 0 1] by (simp add: rd_def)
    next
      case 3 then show ?thesis using rgb[of 0 0 2] by (simp add: rd_def)
    next
      case 4 then show ?thesis using alpha[of 0 0] by (simp add: rd_def)
    next
      case 5 then show ?thesis using rgb[of 1 0 0] by (simp add: rd_def)
    next
      case 6 then show ?thesis using rgb[of 1 0 1] by (simp add: rd_def)
    next
      case 7 then show ?thesis using rgb[of 1 0 2] by (simp add: rd_def)
    next
      case 8 then show ?thesis using alpha[of 1 0] by (simp add: rd_def)
    next
      case 9 then show ?thesis using rgb[of 0 1 0] by (simp add: rd_def)
    next
      case 10 then show ?thesis using rgb[of 0 1 1] by (simp add: rd_def)
    next
      case 11 then show ?thesis using rgb[of 0 1 2] by (simp add: rd_def)
    next
      case 12 then show ?thesis using alpha[of 0 1] by (simp add: rd_def)
    next
      case 13 then show ?thesis using rgb[of 1 1 0] by (simp add: rd_def)
    next
      case 14 then show ?thesis using rgb[of 1 1 1] by (simp add: rd_def)
    next
      case 15 then show ?thesis using rgb[of 1 1 2] by (simp add: rd_def)
    next
      case 16 then show ?thesis using alpha[of 1 1] by (simp add: rd_def)
    qed
  next
    case False
    then show ?thesis using out(2) assms by (auto simp: rd_def)
  qed
  then have "out = ?res" by (rule rd_ext)
  then show ?thesis using out(1) by simp
qed

section \<open>Flat images in exact arithmetic\<close>

lemma foldl_add_sum_list: "foldl (+) a xs = a + sum_list (xs :: real list)"
  by (induction xs arbitrary: a) simp_all

lemma sum_list_pos_real:
  assumes "\<forall>x \<in> set xs. 0 < (x :: real)" "xs \<noteq> []"
  shows "0 < sum_list xs"
  using assms
proof (induction xs)
  case Nil
  then show ?case by simp
next
  case (Cons a xs)
  then show ?case by (cases xs) (simp_all add: add_pos_pos)
qed

lemma weighted_mean_const:
  fixes W :: "'o \<Rightarrow> real"
  assumes "\<forall>off \<in> set offs. 0 < W off" "offs \<noteq> []"
  shows "foldl (+) 0 (map (\<lambda>off. W off * n) offs) / foldl (+) 0 (map W offs) = n"
proof -
  have "0 < sum_list (map W offs)" using assms by (intro sum_list_pos_real) auto
  moreover have "sum_list (map (\<lambda>off. W off * n) offs) = sum_list (map W offs) * n"
    by (simp add: sum_list_mult_const)
  ultimately show ?thesis by (simp add: foldl_add_sum_list)
qed

lemma unit_range: "0 \<le> real_of_int (uint (v :: u8)) / 255" "real_of_int (uint (v :: u8)) / 255 \<le> 1"
proof -
  define k where "k = uint v"
  have "0 \<le> k" "k \<le> 255" using unsigned_less[of v, where 'a = int] by (simp_all add: k_def)
  then have "0 \<le> real_of_int k / 255" "real_of_int k / 255 \<le> 1" by simp_all
  then show "0 \<le> real_of_int (uint v) / 255" "real_of_int (uint v) / 255 \<le> 1"
    unfolding k_def by blast+
qed

lemma byte_of_unit: "fto_u8 real_arith (real_of_int (uint (v :: u8)) / 255 * 255) = v"
proof -
  define k where "k = uint v"
  have "0 \<le> k" by (simp add: k_def)
  then have "fto_u8 real_arith (real_of_int k / 255 * 255) = word_of_int k"
    by (simp add: real_arith_def)
  then show ?thesis unfolding k_def by simp
qed

lemma real_clamp_unit:
  assumes "0 \<le> n" "n \<le> 1"
  shows "std_min real_arith (std_max real_arith n 0) 1 = n"
    "spec_clamp_unit real_arith n = n"
  using assms by (simp_all add: std_min_def std_max_def spec_clamp_unit_def real_arith_def)

lemma spec_offsets_nonempty: "spec_offsets \<noteq> []"
  using spec_offsets_all by auto

lemma real_sel: "fadd real_arith = (+)" "fmul real_arith = (*)" "fdiv real_arith = (/)"
  "fof_int real_arith 0 = 0" "fof_int real_arith 255 = 255" "fof_int real_arith 1 = 1"
  by (simp_all add: real_arith_def)

lemma flat_byte_real: "flat_byte real_arith sD sR v = v"
proof -
  let ?n = "real_of_int (uint v) / 255"
  have n: "normalise real_arith v = ?n" by (simp only: normalise_def real_arith_def arith.select_convs of_int_numeral)
  have pos: "\<forall>off \<in> set spec_offsets. 0 < flat_weight real_arith sD sR v off"
    by (auto simp: flat_weight_def weight_of_def real_arith_def Let_def)
  have q: "foldl (+) 0 (map (\<lambda>off. flat_weight real_arith sD sR v off * ?n) spec_offsets)
      / foldl (+) 0 (map (flat_weight real_arith sD sR v) spec_offsets) = ?n"
    by (rule weighted_mean_const[OF pos spec_offsets_nonempty])
  show ?thesis
    unfolding flat_byte_def quantise_def n
    by (simp only: real_sel(1-4) q real_clamp_unit(1)[OF unit_range] real_sel(5,6) byte_of_unit)
qed



section \<open>A flat image in single precision, sigmaDomain = 3 and sigmaRange = 0.2\<close>

text \<open>
  \<open>sigmaRange\<close> is the \<open>float\<close> nearest to 0.2, \<open>13421773 / 2^26\<close>.  Each lemma of this
  section is one rounded operation of the run on a flat grey image, on the values that
  the run meets: the reciprocals of the sigmas, the norms and weights of the six
  distances, the 25 additions of the sum of the weights, and for grey 128 the products
  and the 25 additions of the weighted sum, the quotient and its scaling by 255.
\<close>

lemma recip_sigma_domain:
  "b32_div (Fin False 1) (Fin False 3) = Fin False (11184811 / 33554432)"
  by (rule b32_div_evalI; (rule mk_evalI[where e = "- 2" and N = 11184811])?; simp add: pow2_def)

lemma recip_sigma_range:
  "b32_div (Fin False 1) (Fin False (13421773 / 67108864)) = Fin False 5"
  by (rule b32_div_evalI; (rule mk_evalI[where e = 2 and N = 10485760])?; simp add: pow2_def)

lemma of_int_4:
  "b32_of_int 4 = Fin False 4"
  unfolding b32_of_int_def by (simp, rule mk_evalI[where e = 2 and N = 8388608]; simp add: pow2_def)

lemma square_sum_0_1:
  "b32_add (Fin False 0) (Fin False 1) = Fin False 1"
  by (rule b32_add_evalI; (rule mk_evalI[where e = 0 and N = 8388608])?; simp add: pow2_def)

lemma square_sum_0_4:
  "b32_add (Fin False 0) (Fin False 4) = Fin False 4"
  by (rule b32_add_evalI; (rule mk_evalI[where e = 2 and N = 8388608])?; simp add: pow2_def)

lemma square_sum_1_0:
  "b32_add (Fin False 1) (Fin False 0) = Fin False 1"
  by (rule b32_add_evalI; (rule mk_evalI[where e = 0 and N = 8388608])?; simp add: pow2_def)

lemma square_sum_1_1:
  "b32_add (Fin False 1) (Fin False 1) = Fin False 2"
  by (rule b32_add_evalI; (rule mk_evalI[where e = 1 and N = 8388608])?; simp add: pow2_def)

lemma square_sum_1_4:
  "b32_add (Fin False 1) (Fin False 4) = Fin False 5"
  by (rule b32_add_evalI; (rule mk_evalI[where e = 2 and N = 10485760])?; simp add: pow2_def)

lemma square_sum_4_0:
  "b32_add (Fin False 4) (Fin False 0) = Fin False 4"
  by (rule b32_add_evalI; (rule mk_evalI[where e = 2 and N = 8388608])?; simp add: pow2_def)

lemma square_sum_4_1:
  "b32_add (Fin False 4) (Fin False 1) = Fin False 5"
  by (rule b32_add_evalI; (rule mk_evalI[where e = 2 and N = 10485760])?; simp add: pow2_def)

lemma square_sum_4_4:
  "b32_add (Fin False 4) (Fin False 4) = Fin False 8"
  by (rule b32_add_evalI; (rule mk_evalI[where e = 3 and N = 8388608])?; simp add: pow2_def)

lemma sqrt_1:
  "b32_sqrt (Fin False 1) = Fin False 1"
  by (rule b32_sqrt_exactI[where c = 1]; (rule mk_evalI[where e = 0 and N = 8388608])?; simp add: pow2_def)

lemma norm_1:
  "b32_mul (Fin False 1) (Fin False (11184811 / 33554432)) = Fin False (11184811 / 33554432)"
  by (rule b32_mul_evalI; (rule mk_evalI[where e = "- 2" and N = 11184811])?; simp add: pow2_def)

lemma norm_sq_1:
  "b32_mul (Fin False (11184811 / 33554432)) (Fin False (11184811 / 33554432)) = Fin False (7456541 / 67108864)"
  by (rule b32_mul_evalI; (rule mk_evalI[where e = "- 4" and N = 14913082])?; simp add: pow2_def)

lemma norm_half_1:
  "b32_mul (Fin True (1 / 2)) (Fin False (7456541 / 67108864)) = Fin True (7456541 / 134217728)"
  by (rule b32_mul_evalI; (rule mk_evalI[where e = "- 5" and N = 14913082])?; simp add: pow2_def)

lemma exp_1:
  "b32_exp (Fin True (7456541 / 134217728)) = Fin False (7935283 / 8388608)"
  by (rule b32_exp_evalI[where e = "- 1" and N = 15870566]; simp add: pow2_def exp_lower_def exp_upper_def)

lemma gauss_1:
  "gauss (Fin False (11184811 / 33554432)) = Fin False (7935283 / 8388608)"
  by (simp only: gauss_def norm_sq_1 norm_half_1 exp_1)

lemma weight_1:
  "b32_mul (Fin False (7935283 / 8388608)) (Fin False 1) = Fin False (7935283 / 8388608)"
  by (rule b32_mul_evalI; (rule mk_evalI[where e = "- 1" and N = 15870566])?; simp add: pow2_def)

lemma sqrt_2:
  "b32_sqrt (Fin False 2) = Fin False (11863283 / 8388608)"
  by (rule b32_sqrt_evalI[where e = 0 and N = 11863283]; simp add: pow2_def power2_eq_square)

lemma norm_2:
  "b32_mul (Fin False (11863283 / 8388608)) (Fin False (11184811 / 33554432)) = Fin False (15817711 / 33554432)"
  by (rule b32_mul_evalI; (rule mk_evalI[where e = "- 2" and N = 15817711])?; simp add: pow2_def)

lemma norm_sq_2:
  "b32_mul (Fin False (15817711 / 33554432)) (Fin False (15817711 / 33554432)) = Fin False (14913081 / 67108864)"
  by (rule b32_mul_evalI; (rule mk_evalI[where e = "- 3" and N = 14913081])?; simp add: pow2_def)

lemma norm_half_2:
  "b32_mul (Fin True (1 / 2)) (Fin False (14913081 / 67108864)) = Fin True (14913081 / 134217728)"
  by (rule b32_mul_evalI; (rule mk_evalI[where e = "- 4" and N = 14913081])?; simp add: pow2_def)

lemma exp_2:
  "b32_exp (Fin True (14913081 / 134217728)) = Fin False (938307 / 1048576)"
  by (rule b32_exp_evalI[where e = "- 1" and N = 15012912]; simp add: pow2_def exp_lower_def exp_upper_def)

lemma gauss_2:
  "gauss (Fin False (15817711 / 33554432)) = Fin False (938307 / 1048576)"
  by (simp only: gauss_def norm_sq_2 norm_half_2 exp_2)

lemma weight_2:
  "b32_mul (Fin False (938307 / 1048576)) (Fin False 1) = Fin False (938307 / 1048576)"
  by (rule b32_mul_evalI; (rule mk_evalI[where e = "- 1" and N = 15012912])?; simp add: pow2_def)

lemma sqrt_4:
  "b32_sqrt (Fin False 4) = Fin False 2"
  by (rule b32_sqrt_exactI[where c = 2]; (rule mk_evalI[where e = 1 and N = 8388608])?; simp add: pow2_def)

lemma norm_4:
  "b32_mul (Fin False 2) (Fin False (11184811 / 33554432)) = Fin False (11184811 / 16777216)"
  by (rule b32_mul_evalI; (rule mk_evalI[where e = "- 1" and N = 11184811])?; simp add: pow2_def)

lemma norm_sq_4:
  "b32_mul (Fin False (11184811 / 16777216)) (Fin False (11184811 / 16777216)) = Fin False (7456541 / 16777216)"
  by (rule b32_mul_evalI; (rule mk_evalI[where e = "- 2" and N = 14913082])?; simp add: pow2_def)

lemma norm_half_4:
  "b32_mul (Fin True (1 / 2)) (Fin False (7456541 / 16777216)) = Fin True (7456541 / 33554432)"
  by (rule b32_mul_evalI; (rule mk_evalI[where e = "- 3" and N = 14913082])?; simp add: pow2_def)

lemma exp_4:
  "b32_exp (Fin True (7456541 / 33554432)) = Fin False (419817 / 524288)"
  by (rule b32_exp_evalI[where e = "- 1" and N = 13434144]; simp add: pow2_def exp_lower_def exp_upper_def)

lemma gauss_4:
  "gauss (Fin False (11184811 / 16777216)) = Fin False (419817 / 524288)"
  by (simp only: gauss_def norm_sq_4 norm_half_4 exp_4)

lemma weight_4:
  "b32_mul (Fin False (419817 / 524288)) (Fin False 1) = Fin False (419817 / 524288)"
  by (rule b32_mul_evalI; (rule mk_evalI[where e = "- 1" and N = 13434144])?; simp add: pow2_def)

lemma sqrt_5:
  "b32_sqrt (Fin False 5) = Fin False (9378749 / 4194304)"
  by (rule b32_sqrt_evalI[where e = 1 and N = 9378749]; simp add: pow2_def power2_eq_square)

lemma norm_5:
  "b32_mul (Fin False (9378749 / 4194304)) (Fin False (11184811 / 33554432)) = Fin False (12504999 / 16777216)"
  by (rule b32_mul_evalI; (rule mk_evalI[where e = "- 1" and N = 12504999])?; simp add: pow2_def)

lemma norm_sq_5:
  "b32_mul (Fin False (12504999 / 16777216)) (Fin False (12504999 / 16777216)) = Fin False (2330169 / 4194304)"
  by (rule b32_mul_evalI; (rule mk_evalI[where e = "- 1" and N = 9320676])?; simp add: pow2_def)

lemma norm_half_5:
  "b32_mul (Fin True (1 / 2)) (Fin False (2330169 / 4194304)) = Fin True (2330169 / 8388608)"
  by (rule b32_mul_evalI; (rule mk_evalI[where e = "- 2" and N = 9320676])?; simp add: pow2_def)

lemma exp_5:
  "b32_exp (Fin True (2330169 / 8388608)) = Fin False (3177039 / 4194304)"
  by (rule b32_exp_evalI[where e = "- 1" and N = 12708156]; simp add: pow2_def exp_lower_def exp_upper_def)

lemma gauss_5:
  "gauss (Fin False (12504999 / 16777216)) = Fin False (3177039 / 4194304)"
  by (simp only: gauss_def norm_sq_5 norm_half_5 exp_5)

lemma weight_5:
  "b32_mul (Fin False (3177039 / 4194304)) (Fin False 1) = Fin False (3177039 / 4194304)"
  by (rule b32_mul_evalI; (rule mk_evalI[where e = "- 1" and N = 12708156])?; simp add: pow2_def)

lemma sqrt_8:
  "b32_sqrt (Fin False 8) = Fin False (11863283 / 4194304)"
  by (rule b32_sqrt_evalI[where e = 1 and N = 11863283]; simp add: pow2_def power2_eq_square)

lemma norm_8:
  "b32_mul (Fin False (11863283 / 4194304)) (Fin False (11184811 / 33554432)) = Fin False (15817711 / 16777216)"
  by (rule b32_mul_evalI; (rule mk_evalI[where e = "- 1" and N = 15817711])?; simp add: pow2_def)

lemma norm_sq_8:
  "b32_mul (Fin False (15817711 / 16777216)) (Fin False (15817711 / 16777216)) = Fin False (14913081 / 16777216)"
  by (rule b32_mul_evalI; (rule mk_evalI[where e = "- 1" and N = 14913081])?; simp add: pow2_def)

lemma norm_half_8:
  "b32_mul (Fin True (1 / 2)) (Fin False (14913081 / 16777216)) = Fin True (14913081 / 33554432)"
  by (rule b32_mul_evalI; (rule mk_evalI[where e = "- 2" and N = 14913081])?; simp add: pow2_def)

lemma exp_8:
  "b32_exp (Fin True (14913081 / 33554432)) = Fin False (5378611 / 8388608)"
  by (rule b32_exp_evalI[where e = "- 1" and N = 10757222]; simp add: pow2_def exp_lower_def exp_upper_def)

lemma gauss_8:
  "gauss (Fin False (15817711 / 16777216)) = Fin False (5378611 / 8388608)"
  by (simp only: gauss_def norm_sq_8 norm_half_8 exp_8)

lemma weight_8:
  "b32_mul (Fin False (5378611 / 8388608)) (Fin False 1) = Fin False (5378611 / 8388608)"
  by (rule b32_mul_evalI; (rule mk_evalI[where e = "- 1" and N = 10757222])?; simp add: pow2_def)

lemma weight_0:
  "b32_mul (Fin False 1) (Fin False 1) = Fin False 1"
  by (rule b32_mul_evalI; (rule mk_evalI[where e = 0 and N = 8388608])?; simp add: pow2_def)

lemma coeff_0:
  "b32_add (Fin False 0) (Fin False (5378611 / 8388608)) = Fin False (5378611 / 8388608)"
  by (rule b32_add_evalI; (rule mk_evalI[where e = "- 1" and N = 10757222])?; simp add: pow2_def)

lemma coeff_1:
  "b32_add (Fin False (5378611 / 8388608)) (Fin False (3177039 / 4194304)) = Fin False (11732689 / 8388608)"
  by (rule b32_add_evalI; (rule mk_evalI[where e = 0 and N = 11732689])?; simp add: pow2_def)

lemma coeff_2:
  "b32_add (Fin False (11732689 / 8388608)) (Fin False (419817 / 524288)) = Fin False (576555 / 262144)"
  by (rule b32_add_evalI; (rule mk_evalI[where e = 1 and N = 9224880])?; simp add: pow2_def)

lemma coeff_3:
  "b32_add (Fin False (576555 / 262144)) (Fin False (3177039 / 4194304)) = Fin False (12401919 / 4194304)"
  by (rule b32_add_evalI; (rule mk_evalI[where e = 1 and N = 12401919])?; simp add: pow2_def)

lemma coeff_4:
  "b32_add (Fin False (12401919 / 4194304)) (Fin False (5378611 / 8388608)) = Fin False (1886403 / 524288)"
  by (rule b32_add_evalI; (rule mk_evalI[where e = 1 and N = 15091224])?; simp add: pow2_def)

lemma coeff_5:
  "b32_add (Fin False (1886403 / 524288)) (Fin False (3177039 / 4194304)) = Fin False (2283533 / 524288)"
  by (rule b32_add_evalI; (rule mk_evalI[where e = 2 and N = 9134132])?; simp add: pow2_def)

lemma coeff_6:
  "b32_add (Fin False (2283533 / 524288)) (Fin False (938307 / 1048576)) = Fin False (5505373 / 1048576)"
  by (rule b32_add_evalI; (rule mk_evalI[where e = 2 and N = 11010746])?; simp add: pow2_def)

lemma coeff_7:
  "b32_add (Fin False (5505373 / 1048576)) (Fin False (7935283 / 8388608)) = Fin False (12994567 / 2097152)"
  by (rule b32_add_evalI; (rule mk_evalI[where e = 2 and N = 12994567])?; simp add: pow2_def)

lemma coeff_8:
  "b32_add (Fin False (12994567 / 2097152)) (Fin False (938307 / 1048576)) = Fin False (14871181 / 2097152)"
  by (rule b32_add_evalI; (rule mk_evalI[where e = 2 and N = 14871181])?; simp add: pow2_def)

lemma coeff_9:
  "b32_add (Fin False (14871181 / 2097152)) (Fin False (3177039 / 4194304)) = Fin False (4114925 / 524288)"
  by (rule b32_add_evalI; (rule mk_evalI[where e = 2 and N = 16459700])?; simp add: pow2_def)

lemma coeff_10:
  "b32_add (Fin False (4114925 / 524288)) (Fin False (419817 / 524288)) = Fin False (2267371 / 262144)"
  by (rule b32_add_evalI; (rule mk_evalI[where e = 3 and N = 9069484])?; simp add: pow2_def)

lemma coeff_11:
  "b32_add (Fin False (2267371 / 262144)) (Fin False (7935283 / 8388608)) = Fin False (5030697 / 524288)"
  by (rule b32_add_evalI; (rule mk_evalI[where e = 3 and N = 10061394])?; simp add: pow2_def)

lemma coeff_12:
  "b32_add (Fin False (5030697 / 524288)) (Fin False 1) = Fin False (5554985 / 524288)"
  by (rule b32_add_evalI; (rule mk_evalI[where e = 3 and N = 11109970])?; simp add: pow2_def)

lemma coeff_13:
  "b32_add (Fin False (5554985 / 524288)) (Fin False (7935283 / 8388608)) = Fin False (1512735 / 131072)"
  by (rule b32_add_evalI; (rule mk_evalI[where e = 3 and N = 12101880])?; simp add: pow2_def)

lemma coeff_14:
  "b32_add (Fin False (1512735 / 131072)) (Fin False (419817 / 524288)) = Fin False (6470757 / 524288)"
  by (rule b32_add_evalI; (rule mk_evalI[where e = 3 and N = 12941514])?; simp add: pow2_def)

lemma coeff_15:
  "b32_add (Fin False (6470757 / 524288)) (Fin False (3177039 / 4194304)) = Fin False (6867887 / 524288)"
  by (rule b32_add_evalI; (rule mk_evalI[where e = 3 and N = 13735774])?; simp add: pow2_def)

lemma coeff_16:
  "b32_add (Fin False (6867887 / 524288)) (Fin False (938307 / 1048576)) = Fin False (14674081 / 1048576)"
  by (rule b32_add_evalI; (rule mk_evalI[where e = 3 and N = 14674081])?; simp add: pow2_def)

lemma coeff_17:
  "b32_add (Fin False (14674081 / 1048576)) (Fin False (7935283 / 8388608)) = Fin False (15665991 / 1048576)"
  by (rule b32_add_evalI; (rule mk_evalI[where e = 3 and N = 15665991])?; simp add: pow2_def)

lemma coeff_18:
  "b32_add (Fin False (15665991 / 1048576)) (Fin False (938307 / 1048576)) = Fin False (8302149 / 524288)"
  by (rule b32_add_evalI; (rule mk_evalI[where e = 3 and N = 16604298])?; simp add: pow2_def)

lemma coeff_19:
  "b32_add (Fin False (8302149 / 524288)) (Fin False (3177039 / 4194304)) = Fin False (8699279 / 524288)"
  by (rule b32_add_evalI; (rule mk_evalI[where e = 4 and N = 8699279])?; simp add: pow2_def)

lemma coeff_20:
  "b32_add (Fin False (8699279 / 524288)) (Fin False (5378611 / 8388608)) = Fin False (4517721 / 262144)"
  by (rule b32_add_evalI; (rule mk_evalI[where e = 4 and N = 9035442])?; simp add: pow2_def)

lemma coeff_21:
  "b32_add (Fin False (4517721 / 262144)) (Fin False (3177039 / 4194304)) = Fin False (2358143 / 131072)"
  by (rule b32_add_evalI; (rule mk_evalI[where e = 4 and N = 9432572])?; simp add: pow2_def)

lemma coeff_22:
  "b32_add (Fin False (2358143 / 131072)) (Fin False (419817 / 524288)) = Fin False (9852389 / 524288)"
  by (rule b32_add_evalI; (rule mk_evalI[where e = 4 and N = 9852389])?; simp add: pow2_def)

lemma coeff_23:
  "b32_add (Fin False (9852389 / 524288)) (Fin False (3177039 / 4194304)) = Fin False (10249519 / 524288)"
  by (rule b32_add_evalI; (rule mk_evalI[where e = 4 and N = 10249519])?; simp add: pow2_def)

lemma coeff_24:
  "b32_add (Fin False (10249519 / 524288)) (Fin False (5378611 / 8388608)) = Fin False (5292841 / 262144)"
  by (rule b32_add_evalI; (rule mk_evalI[where e = 4 and N = 10585682])?; simp add: pow2_def)

lemma of_int_255:
  "b32_of_int 255 = Fin False 255"
  unfolding b32_of_int_def by (simp, rule mk_evalI[where e = 7 and N = 16711680]; simp add: pow2_def)

lemma of_int_128:
  "b32_of_int 128 = Fin False 128"
  unfolding b32_of_int_def by (simp, rule mk_evalI[where e = 7 and N = 8388608]; simp add: pow2_def)

lemma normalise_128:
  "b32_div (Fin False 128) (Fin False 255) = Fin False (8421505 / 16777216)"
  by (rule b32_div_evalI; (rule mk_evalI[where e = "- 1" and N = 8421505])?; simp add: pow2_def)

lemma product_128_8:
  "b32_mul (Fin False (5378611 / 8388608)) (Fin False (8421505 / 16777216)) = Fin False (674963 / 2097152)"
  by (rule b32_mul_evalI; (rule mk_evalI[where e = "- 2" and N = 10799408])?; simp add: pow2_def)

lemma product_128_5:
  "b32_mul (Fin False (3177039 / 4194304)) (Fin False (8421505 / 16777216)) = Fin False (12757993 / 33554432)"
  by (rule b32_mul_evalI; (rule mk_evalI[where e = "- 2" and N = 12757993])?; simp add: pow2_def)

lemma product_128_4:
  "b32_mul (Fin False (419817 / 524288)) (Fin False (8421505 / 16777216)) = Fin False (3371707 / 8388608)"
  by (rule b32_mul_evalI; (rule mk_evalI[where e = "- 2" and N = 13486828])?; simp add: pow2_def)

lemma product_128_2:
  "b32_mul (Fin False (938307 / 1048576)) (Fin False (8421505 / 16777216)) = Fin False (15071787 / 33554432)"
  by (rule b32_mul_evalI; (rule mk_evalI[where e = "- 2" and N = 15071787])?; simp add: pow2_def)

lemma product_128_1:
  "b32_mul (Fin False (7935283 / 8388608)) (Fin False (8421505 / 16777216)) = Fin False (3983201 / 8388608)"
  by (rule b32_mul_evalI; (rule mk_evalI[where e = "- 2" and N = 15932804])?; simp add: pow2_def)

lemma product_128_0:
  "b32_mul (Fin False 1) (Fin False (8421505 / 16777216)) = Fin False (8421505 / 16777216)"
  by (rule b32_mul_evalI; (rule mk_evalI[where e = "- 1" and N = 8421505])?; simp add: pow2_def)

lemma sum_128_0:
  "b32_add (Fin False 0) (Fin False (674963 / 2097152)) = Fin False (674963 / 2097152)"
  by (rule b32_add_evalI; (rule mk_evalI[where e = "- 2" and N = 10799408])?; simp add: pow2_def)

lemma sum_128_1:
  "b32_add (Fin False (674963 / 2097152)) (Fin False (12757993 / 33554432)) = Fin False (2944675 / 4194304)"
  by (rule b32_add_evalI; (rule mk_evalI[where e = "- 1" and N = 11778700])?; simp add: pow2_def)

lemma sum_128_2:
  "b32_add (Fin False (2944675 / 4194304)) (Fin False (3371707 / 8388608)) = Fin False (9261057 / 8388608)"
  by (rule b32_add_evalI; (rule mk_evalI[where e = 0 and N = 9261057])?; simp add: pow2_def)

lemma sum_128_3:
  "b32_add (Fin False (9261057 / 8388608)) (Fin False (12757993 / 33554432)) = Fin False (12450555 / 8388608)"
  by (rule b32_add_evalI; (rule mk_evalI[where e = 0 and N = 12450555])?; simp add: pow2_def)

lemma sum_128_4:
  "b32_add (Fin False (12450555 / 8388608)) (Fin False (674963 / 2097152)) = Fin False (15150407 / 8388608)"
  by (rule b32_add_evalI; (rule mk_evalI[where e = 0 and N = 15150407])?; simp add: pow2_def)

lemma sum_128_5:
  "b32_add (Fin False (15150407 / 8388608)) (Fin False (12757993 / 33554432)) = Fin False (9169953 / 4194304)"
  by (rule b32_add_evalI; (rule mk_evalI[where e = 1 and N = 9169953])?; simp add: pow2_def)

lemma sum_128_6:
  "b32_add (Fin False (9169953 / 4194304)) (Fin False (15071787 / 33554432)) = Fin False (5526963 / 2097152)"
  by (rule b32_add_evalI; (rule mk_evalI[where e = 1 and N = 11053926])?; simp add: pow2_def)

lemma sum_128_7:
  "b32_add (Fin False (5526963 / 2097152)) (Fin False (3983201 / 8388608)) = Fin False (6522763 / 2097152)"
  by (rule b32_add_evalI; (rule mk_evalI[where e = 1 and N = 13045526])?; simp add: pow2_def)

lemma sum_128_8:
  "b32_add (Fin False (6522763 / 2097152)) (Fin False (15071787 / 33554432)) = Fin False (14929499 / 4194304)"
  by (rule b32_add_evalI; (rule mk_evalI[where e = 1 and N = 14929499])?; simp add: pow2_def)

lemma sum_128_9:
  "b32_add (Fin False (14929499 / 4194304)) (Fin False (12757993 / 33554432)) = Fin False (2065531 / 524288)"
  by (rule b32_add_evalI; (rule mk_evalI[where e = 1 and N = 16524248])?; simp add: pow2_def)

lemma sum_128_10:
  "b32_add (Fin False (2065531 / 524288)) (Fin False (3371707 / 8388608)) = Fin False (9105051 / 2097152)"
  by (rule b32_add_evalI; (rule mk_evalI[where e = 2 and N = 9105051])?; simp add: pow2_def)

lemma sum_128_11:
  "b32_add (Fin False (9105051 / 2097152)) (Fin False (3983201 / 8388608)) = Fin False (10100851 / 2097152)"
  by (rule b32_add_evalI; (rule mk_evalI[where e = 2 and N = 10100851])?; simp add: pow2_def)

lemma sum_128_12:
  "b32_add (Fin False (10100851 / 2097152)) (Fin False (8421505 / 16777216)) = Fin False (11153539 / 2097152)"
  by (rule b32_add_evalI; (rule mk_evalI[where e = 2 and N = 11153539])?; simp add: pow2_def)

lemma sum_128_13:
  "b32_add (Fin False (11153539 / 2097152)) (Fin False (3983201 / 8388608)) = Fin False (12149339 / 2097152)"
  by (rule b32_add_evalI; (rule mk_evalI[where e = 2 and N = 12149339])?; simp add: pow2_def)

lemma sum_128_14:
  "b32_add (Fin False (12149339 / 2097152)) (Fin False (3371707 / 8388608)) = Fin False (6496133 / 1048576)"
  by (rule b32_add_evalI; (rule mk_evalI[where e = 2 and N = 12992266])?; simp add: pow2_def)

lemma sum_128_15:
  "b32_add (Fin False (6496133 / 1048576)) (Fin False (12757993 / 33554432)) = Fin False (13789641 / 2097152)"
  by (rule b32_add_evalI; (rule mk_evalI[where e = 2 and N = 13789641])?; simp add: pow2_def)

lemma sum_128_16:
  "b32_add (Fin False (13789641 / 2097152)) (Fin False (15071787 / 33554432)) = Fin False (3682907 / 524288)"
  by (rule b32_add_evalI; (rule mk_evalI[where e = 2 and N = 14731628])?; simp add: pow2_def)

lemma sum_128_17:
  "b32_add (Fin False (3682907 / 524288)) (Fin False (3983201 / 8388608)) = Fin False (3931857 / 524288)"
  by (rule b32_add_evalI; (rule mk_evalI[where e = 2 and N = 15727428])?; simp add: pow2_def)

lemma sum_128_18:
  "b32_add (Fin False (3931857 / 524288)) (Fin False (15071787 / 33554432)) = Fin False (16669415 / 2097152)"
  by (rule b32_add_evalI; (rule mk_evalI[where e = 2 and N = 16669415])?; simp add: pow2_def)

lemma sum_128_19:
  "b32_add (Fin False (16669415 / 2097152)) (Fin False (12757993 / 33554432)) = Fin False (8733395 / 1048576)"
  by (rule b32_add_evalI; (rule mk_evalI[where e = 3 and N = 8733395])?; simp add: pow2_def)

lemma sum_128_20:
  "b32_add (Fin False (8733395 / 1048576)) (Fin False (674963 / 2097152)) = Fin False (2267719 / 262144)"
  by (rule b32_add_evalI; (rule mk_evalI[where e = 3 and N = 9070876])?; simp add: pow2_def)

lemma sum_128_21:
  "b32_add (Fin False (2267719 / 262144)) (Fin False (12757993 / 33554432)) = Fin False (9469563 / 1048576)"
  by (rule b32_add_evalI; (rule mk_evalI[where e = 3 and N = 9469563])?; simp add: pow2_def)

lemma sum_128_22:
  "b32_add (Fin False (9469563 / 1048576)) (Fin False (3371707 / 8388608)) = Fin False (4945513 / 524288)"
  by (rule b32_add_evalI; (rule mk_evalI[where e = 3 and N = 9891026])?; simp add: pow2_def)

lemma sum_128_23:
  "b32_add (Fin False (4945513 / 524288)) (Fin False (12757993 / 33554432)) = Fin False (10289713 / 1048576)"
  by (rule b32_add_evalI; (rule mk_evalI[where e = 3 and N = 10289713])?; simp add: pow2_def)

lemma sum_128_24:
  "b32_add (Fin False (10289713 / 1048576)) (Fin False (674963 / 2097152)) = Fin False (5313597 / 524288)"
  by (rule b32_add_evalI; (rule mk_evalI[where e = 3 and N = 10627194])?; simp add: pow2_def)

lemma quotient_128:
  "b32_div (Fin False (5313597 / 524288)) (Fin False (5292841 / 262144)) = Fin False (65793 / 131072)"
  by (rule b32_div_evalI; (rule mk_evalI[where e = "- 1" and N = 8421504])?; simp add: pow2_def)

lemma scaled_128:
  "b32_mul (Fin False (65793 / 131072)) (Fin False 255) = Fin False (16777215 / 131072)"
  by (rule b32_mul_evalI; (rule mk_evalI[where e = 6 and N = 16777215])?; simp add: pow2_def)

text \<open>
  The run assembled.  On a flat image the range factor of every weight is
  \<open>exp(-0.5f * 0) = 1\<close>, so the weights are those of the table \<open>weights_3\<close>; their sum is
  \<open>5292841 / 2^18\<close>.  For grey 128 the weighted sum divided by it is \<open>8421504 / 2^24\<close>, one
  unit in the last place below the normalised input \<open>8421505 / 2^24\<close>; times 255 that is
  \<open>128 - 2^(-17)\<close>, which the cast truncates to 127.
\<close>

lemmas b32_defining_equations =
  b32_add.simps b32_mul.simps b32_div.simps b32_sqrt.simps b32_exp.simps

lemma flat_weight_binary32:
  assumes "b32_div (b32_of_int 1) sR = Fin t q"
  shows "flat_weight binary32 sD sR v (i, j) = b32_mul (gauss (domain_norm sD i j)) (Fin False 1)"
proof -
  let ?n = "normalise binary32 v"
  have u: "unit3 (?n, ?n, ?n)" using normalise_finn[of v] by (simp add: unit3_def)
  show ?thesis
    by (simp add: flat_weight_def weight_of_binary32 range_norm_centre[OF u] assms)
qed

lemma flat_weights_3:
  "map (flat_weight binary32 (Fin False 3) (Fin False (13421773 / 67108864)) v) spec_offsets
   = weights_3"
  unfolding spec_offsets_def upto_m2_2 weights_3_def weights_3_real_def
  by (simp add: flat_weight_binary32[OF recip_sigma_range[unfolded b32_of_int_1[symmetric]]] domain_norm_def
      b32_of_int_1 recip_sigma_domain b32_sqrt_zero b32_mul_zero_left
      of_int_4 square_sum_0_1 square_sum_0_4 square_sum_1_0 square_sum_1_1 square_sum_1_4
      square_sum_4_0 square_sum_4_1 square_sum_4_4 sqrt_1 norm_1 gauss_1 weight_1 sqrt_2 norm_2
      gauss_2 weight_2 sqrt_4 norm_4 gauss_4 weight_4 sqrt_5 norm_5 gauss_5 weight_5 sqrt_8
      norm_8 gauss_8 weight_8 weight_0
      del: b32_defining_equations)

lemma flat_coeff_3:
  "foldl b32_add (b32_of_int 0) weights_3 = Fin False (5292841 / 262144)"
  unfolding weights_3_def weights_3_real_def
  by (simp only: list.map foldl_Cons foldl_Nil b32_of_int_0
      coeff_0 coeff_1 coeff_2 coeff_3 coeff_4 coeff_5 coeff_6 coeff_7 coeff_8 coeff_9 coeff_10
      coeff_11 coeff_12 coeff_13 coeff_14 coeff_15 coeff_16 coeff_17 coeff_18 coeff_19 coeff_20
      coeff_21 coeff_22 coeff_23 coeff_24)

lemma flat_byte_3:
  "flat_byte binary32 (Fin False 3) (Fin False (13421773 / 67108864)) v
   = quantise binary32
       (foldl b32_add (Fin False 0)
          (map (\<lambda>w. b32_mul w (normalise binary32 v)) weights_3))
       (Fin False (5292841 / 262144))"
proof -
  have sel: "fadd binary32 = b32_add" "fmul binary32 = b32_mul" "fof_int binary32 = b32_of_int"
    by (simp_all add: binary32_def)
  have m: "map (\<lambda>off. b32_mul (flat_weight binary32 (Fin False 3) (Fin False (13421773 / 67108864)) v off)
                          (normalise binary32 v)) spec_offsets
      = map (\<lambda>w. b32_mul w (normalise binary32 v))
          (map (flat_weight binary32 (Fin False 3) (Fin False (13421773 / 67108864)) v) spec_offsets)"
    by (simp add: o_def)
  show ?thesis
    unfolding flat_byte_def sel m flat_weights_3 flat_coeff_3 by (simp only: b32_of_int_0)
qed

lemma quantise_binary32:
  assumes "0 \<le> q" "q \<le> 1" "b32_div (Fin False s) (Fin False k) = Fin False q"
    and "b32_mul (Fin False q) (Fin False 255) = Fin False z" "0 \<le> z"
  shows "quantise binary32 (Fin False s) (Fin False k) = word_of_int \<lfloor>z\<rfloor>"
proof -
  have sel: "fdiv binary32 = b32_div" "fmul binary32 = b32_mul" "fof_int binary32 = b32_of_int"
    "fless binary32 = b32_less" "fto_u8 binary32 = b32_to_u8"
    by (simp_all add: binary32_def)
  have c: "std_min binary32 (std_max binary32 (Fin False q) (b32_of_int 0)) (b32_of_int 1) = Fin False q"
    using assms(1,2) by (simp add: std_min_def std_max_def sel b32_of_int_1 val_def)
  show ?thesis
    unfolding quantise_def sel assms(3) c of_int_255 assms(4) using assms(5) by simp
qed

lemma flat_byte_128:
  "flat_byte binary32 (Fin False 3) (Fin False (13421773 / 67108864)) 128 = 127"
proof -
  have n: "normalise binary32 128 = Fin False (8421505 / 16777216)"
    by (simp add: normalise_def binary32_def of_int_128 of_int_255 normalise_128 del: b32_defining_equations)
  have s: "foldl b32_add (Fin False 0) (map (\<lambda>w. b32_mul w (Fin False (8421505 / 16777216))) weights_3)
      = Fin False (5313597 / 524288)"
    unfolding weights_3_def weights_3_real_def
    by (simp only: list.map foldl_Cons foldl_Nil
        product_128_8 product_128_5 product_128_4 product_128_2 product_128_1 product_128_0
        sum_128_0 sum_128_1 sum_128_2 sum_128_3 sum_128_4 sum_128_5 sum_128_6 sum_128_7 sum_128_8
        sum_128_9 sum_128_10 sum_128_11 sum_128_12 sum_128_13 sum_128_14 sum_128_15 sum_128_16
        sum_128_17 sum_128_18 sum_128_19 sum_128_20 sum_128_21 sum_128_22 sum_128_23 sum_128_24)
  have "quantise binary32 (Fin False (5313597 / 524288)) (Fin False (5292841 / 262144)) = word_of_int \<lfloor>16777215 / 131072 :: real\<rfloor>"
    by (rule quantise_binary32[OF _ _ quotient_128 scaled_128]) simp_all
  then show ?thesis unfolding flat_byte_3 n s by simp
qed

lemma normalise_0: "normalise binary32 0 = Fin False 0"
  by (simp add: normalise_def binary32_def of_int_255)

lemma normalise_255: "normalise binary32 255 = Fin False 1"
  by (simp add: normalise_def binary32_def of_int_255)

lemma flat_byte_0:
  "flat_byte binary32 (Fin False 3) (Fin False (13421773 / 67108864)) 0 = 0"
  unfolding flat_byte_3 normalise_0
  by (simp add: quantise_def std_min_def std_max_def binary32_def val_def b32_of_int_1 of_int_255
      weights_3_def weights_3_real_def)

lemma flat_byte_255:
  "flat_byte binary32 (Fin False 3) (Fin False (13421773 / 67108864)) 255 = 255"
proof -
  have p: "map (\<lambda>w. b32_mul w (Fin False 1)) weights_3 = weights_3"
    unfolding weights_3_def weights_3_real_def
    by (simp only: list.map weight_0 weight_1 weight_2 weight_4 weight_5 weight_8)
  have q: "b32_div (Fin False (5292841 / 262144)) (Fin False (5292841 / 262144)) = Fin False 1"
    by simp
  have z: "b32_mul (Fin False 1) (Fin False 255) = Fin False 255"
    using of_int_255 by (simp add: b32_of_int_def)
  have "quantise binary32 (Fin False (5292841 / 262144)) (Fin False (5292841 / 262144))
      = word_of_int \<lfloor>255 :: real\<rfloor>"
    by (rule quantise_binary32[OF _ _ q z]) simp_all
  then show ?thesis
    unfolding flat_byte_3 normalise_255 p flat_coeff_3[unfolded b32_of_int_0] by simp
qed

lemma grey_128_output:
  "runReference binary32 (Fin False 3) (Fin False (13421773 / 67108864))
     [128, 128, 128, 255, 128, 128, 128, 255, 128, 128, 128, 255, 128, 128, 128, 255]
     [0, 0, 0, 0, 0, 0, 0, 0, 0, 0, 0, 0, 0, 0, 0, 0] 2 2
   = Some [127, 127, 127, 255, 127, 127, 127, 255, 127, 127, 127, 255, 127, 127, 127, 255]"
  using flat_output_2x2[of "[0, 0, 0, 0, 0, 0, 0, 0, 0, 0, 0, 0, 0, 0, 0, 0]" binary32 "Fin False 3"
      "Fin False (13421773 / 67108864)" 128 255 255 255 255]
  by (simp only: flat_byte_128) simp

section \<open>Every grey value in single precision, sigmaDomain = 3 and sigmaRange = 0.2\<close>

text \<open>
  The byte stored for a flat image of value \<open>v\<close> is \<open>v\<close> or \<open>v - 1\<close>.  With \<open>x = v/255\<close>, the
  normalised value is \<open>x\<close> up to 2 roundings, each product of a weight and the sample up
  to 3, the weighted sum is \<open>A * x\<close> up to 28 with \<open>A\<close> the exact sum of the 25 weights, the
  quotient by the rounded sum \<open>K\<close> of the weights is \<open>(A/K) * x\<close> up to 29, and the scaled
  value is \<open>(A/K) * v\<close> up to 30.  Since \<open>(A/K) * (1 + eps32)^32 < 256/255\<close> and
  \<open>(A/K) * (1 - eps32)^32 \<ge> 254/255\<close>, the scaled value lies in \<open>[v - 1, v + 1)\<close>.
\<close>

lemma eps32_range: "0 < eps32" "eps32 < 1" "0 \<le> 1 - eps32" "1 - eps32 \<le> 1" "1 \<le> 1 + eps32"
  by (simp_all add: eps32_def)

lemma near_refl: "near 0 x x"
  by (simp add: near_def)

lemma near_zero: "near k 0 0"
  by (simp add: near_def)

lemma near_mono:
  assumes "near k x r" "k \<le> k'" "0 \<le> x"
  shows "near k' x r"
proof -
  have "(1 - eps32) ^ k' \<le> (1 - eps32) ^ k"
    using assms(2) eps32_range(3,4) by (rule power_decreasing)
  then have lo: "x * (1 - eps32) ^ k' \<le> x * (1 - eps32) ^ k"
    using assms(3) by (rule mult_left_mono)
  have "(1 + eps32) ^ k \<le> (1 + eps32) ^ k'"
    using assms(2) eps32_range(5) by (rule power_increasing)
  then have hi: "x * (1 + eps32) ^ k \<le> x * (1 + eps32) ^ k'"
    using assms(3) by (rule mult_left_mono)
  show ?thesis using assms(1) lo hi unfolding near_def by linarith
qed

lemma near_add:
  assumes "near k x r" "near k y s"
  shows "near k (x + y) (r + s)"
  using assms unfolding near_def by (simp add: distrib_right add_mono)

lemma near_scale:
  assumes "near k x r" "0 \<le> c"
  shows "near k (c * x) (c * r)"
proof -
  have "c * (x * (1 - eps32) ^ k) \<le> c * r" "c * r \<le> c * (x * (1 + eps32) ^ k)"
    using assms unfolding near_def by (simp_all add: mult_left_mono)
  then show ?thesis unfolding near_def by (simp add: mult.assoc)
qed

lemma near_div:
  assumes "near k x r" "0 < c"
  shows "near k (x / c) (r / c)"
  using near_scale[OF assms(1), of "1 / c"] assms(2) by simp

lemma near_nonneg:
  assumes "near k x r" "0 \<le> x"
  shows "0 \<le> r"
proof -
  have "0 \<le> x * (1 - eps32) ^ k" using assms(2) eps32_range(3) by simp
  then show ?thesis using assms(1) unfolding near_def by linarith
qed

lemma pow_eps32_32: "1 / 2 \<le> (1 - eps32) ^ 32" "(1 + eps32) ^ 32 \<le> 2"
  by (simp_all add: eps32_def power_divide)

lemma near_bounds:
  assumes "near k x r" "k \<le> 32" "0 \<le> x"
  shows "x / 2 \<le> r" "r \<le> 2 * x"
proof -
  have n: "near 32 x r" using assms by (rule near_mono)
  have "x * (1 / 2) \<le> x * (1 - eps32) ^ 32" using pow_eps32_32(1) assms(3) by (rule mult_left_mono)
  then show "x / 2 \<le> r" using n unfolding near_def by simp
  have "x * (1 + eps32) ^ 32 \<le> x * 2" using pow_eps32_32(2) assms(3) by (rule mult_left_mono)
  then show "r \<le> 2 * x" using n unfolding near_def by simp
qed

lemma rne_near: "\<bar>of_int (rne x) - x\<bar> \<le> 1 / 2"
proof -
  have "of_int \<lfloor>x\<rfloor> \<le> x" "x < of_int \<lfloor>x\<rfloor> + 1" by linarith+
  then show ?thesis by (auto simp: rne_def)
qed

lemma rnd32_rel:
  assumes "pow2 (- 126) \<le> r"
  shows "r * (1 - eps32) \<le> rnd32 r" "rnd32 r \<le> r * (1 + eps32)"
proof -
  have pos: "0 < r" using pow2_pos[of "- 126"] assms by linarith
  define L where "L = \<lfloor>log 2 r\<rfloor>"
  have L: "- 126 \<le> L" "pow2 L \<le> r"
    using floor_log2_ge[OF pos assms] floor_log2_bounds(1)[OF pos] by (simp_all add: L_def)
  have e: "expo32 r = L" using L(1) by (simp add: expo32_def L_def)
  define p where "p = pow2 (L - 23)"
  have p: "0 < p" by (simp add: p_def)
  have "pow2 (L - 23) = pow2 L * pow2 (- 23)" using pow2_add[of L "- 23"] by simp
  then have half: "p / 2 = pow2 L * eps32" by (simp add: p_def eps32_def pow2_def)
  have "rnd32 r - r = (of_int (rne (r / p)) - r / p) * p"
    using p by (simp add: rnd32_def e p_def[symmetric] field_simps)
  then have "\<bar>rnd32 r - r\<bar> = \<bar>of_int (rne (r / p)) - r / p\<bar> * p"
    using p by (simp add: abs_mult)
  also have "\<dots> \<le> 1 / 2 * p" using rne_near[of "r / p"] p by (intro mult_right_mono) simp_all
  also have "\<dots> = pow2 L * eps32" using half by simp
  also have "\<dots> \<le> r * eps32" using L(2) eps32_range(1) by (intro mult_right_mono) simp_all
  finally have "\<bar>rnd32 r - r\<bar> \<le> r * eps32" .
  then show "r * (1 - eps32) \<le> rnd32 r" "rnd32 r \<le> r * (1 + eps32)"
    by (simp_all add: algebra_simps abs_le_iff)
qed

lemma near_rnd:
  assumes "near k x r" "0 \<le> x" "pow2 (- 126) \<le> r"
  shows "near (Suc k) x (rnd32 r)"
proof -
  have "x * (1 - eps32) ^ k * (1 - eps32) \<le> r * (1 - eps32)"
    using assms(1) eps32_range(3) unfolding near_def by (intro mult_right_mono) simp_all
  then have lo: "x * (1 - eps32) ^ Suc k \<le> r * (1 - eps32)" by (simp add: mult_ac)
  have "r * (1 + eps32) \<le> x * (1 + eps32) ^ k * (1 + eps32)"
    using assms(1) eps32_range(1) unfolding near_def by (intro mult_right_mono) simp_all
  then have hi: "r * (1 + eps32) \<le> x * (1 + eps32) ^ Suc k" by (simp add: mult_ac)
  show ?thesis
    using rnd32_rel[OF assms(3)] lo hi unfolding near_def by linarith
qed

lemma mk_near:
  assumes "near k x r" "k \<le> 32" "1 / 2 ^ 100 \<le> x" "x \<le> 2 ^ 100"
  shows "\<exists>c. mk s r = Fin s c \<and> near (Suc k) x c \<and> 0 < c"
proof -
  have "(0::real) \<le> 1 / 2 ^ 100" by simp
  then have x0: "0 \<le> x" using assms(3) by linarith
  have b: "x / 2 \<le> r" "r \<le> 2 * x" using near_bounds[OF assms(1,2) x0] .
  define c :: real where "c = 1 / 2 ^ 100"
  have "pow2 (- 126) \<le> c / 2" by (simp add: pow2_def c_def)
  moreover have "c \<le> x" using assms(3) by (simp add: c_def)
  ultimately have lo: "pow2 (- 126) \<le> r" using b(1) by linarith
  have r0: "0 \<le> r" using pow2_pos[of "- 126"] lo by linarith
  have "2 * x \<le> 2 * 2 ^ 100" using assms(4) by simp
  also have "\<dots> = pow2 101" by (simp add: pow2_def)
  finally have "r \<le> pow2 101" using b(2) by linarith
  then have "rnd32 r \<le> pow2 101" using r0 by (intro rnd32_le_pow2) simp_all
  moreover have "pow2 101 < pow2 128" by (intro pow2_strict_mono) simp
  ultimately have fin: "rnd32 r < 2 ^ 128" unfolding pow2_128 by linarith
  have "0 < r * (1 - eps32)" using lo pow2_pos[of "- 126"] eps32_range(2) by (intro mult_pos_pos) linarith+
  then have "0 < rnd32 r" using rnd32_rel(1)[OF lo] by linarith
  then show ?thesis using fin near_rnd[OF assms(1) x0 lo] by (simp add: mk_def)
qed

lemma weights_3_real: "weights_3 = map (Fin False) weights_3_real"
  by (rule weights_3_def)

lemma weights_3_real_range: "\<forall>w \<in> set weights_3_real. 1 / 2 \<le> w \<and> w \<le> 1"
  by (simp add: weights_3_real_def)

lemma weights_3_real_sum: "sum_list weights_3_real = 21171365 / 1048576" "length weights_3_real = 25"
  by (simp_all add: weights_3_real_def)

lemma product_near:
  assumes "1 / 2 \<le> w" "w \<le> 1" "near 2 x n" "1 / 255 \<le> x" "x \<le> 1"
  shows "\<exists>p. b32_mul (Fin False w) (Fin False n) = Fin False p \<and> near 3 (w * x) p \<and> 0 < p"
proof -
  have x0: "0 \<le> x" using assms(4) by simp
  have n0: "0 \<le> n" using near_nonneg[OF assms(3) x0] .
  have w0: "0 \<le> w" using assms(1) by simp
  have nr: "near 2 (w * x) (w * n)" using assms(3) w0 by (rule near_scale)
  have "1 / 2 * (1 / 255) \<le> w * x" using assms(1,4) by (intro mult_mono) simp_all
  then have lo: "1 / 2 ^ 100 \<le> w * x" by simp
  have "w * x \<le> 1 * 1" using assms(2,5) w0 x0 by (intro mult_mono) simp_all
  then have hi: "w * x \<le> 2 ^ 100" by simp
  from mk_near[OF nr _ lo hi, of False]
  obtain c where "mk False (w * n) = Fin False c" "near (Suc 2) (w * x) c" "0 < c" by auto
  then show ?thesis using w0 n0 by (simp add: abs_of_nonneg numeral_3_eq_3)
qed

lemma sum_near:
  assumes "near k X s" "near 3 Y p" "0 < p" "3 \<le> k" "k \<le> 32" "0 \<le> X" "0 \<le> Y"
    and "1 / 2 ^ 100 \<le> X + Y" "X + Y \<le> 2 ^ 100"
  shows "\<exists>c. b32_add (Fin False s) (Fin False p) = Fin False c \<and> near (Suc k) (X + Y) c \<and> 0 < c"
proof -
  have s0: "0 \<le> s" using near_nonneg[OF assms(1,6)] .
  have nr: "near k (X + Y) (s + p)"
    using assms(1) near_mono[OF assms(2,4,7)] by (rule near_add)
  from mk_near[OF nr assms(5,8,9), of False]
  obtain c where "mk False (s + p) = Fin False c" "near (Suc k) (X + Y) c" "0 < c" by auto
  moreover have "s + p \<noteq> 0" "\<not> s + p < 0" using s0 assms(3) by linarith+
  ultimately show ?thesis using s0 assms(3) by (simp add: val_def abs_of_nonneg)
qed

lemma fold_near:
  assumes "\<forall>w \<in> set ws. 1 / 2 \<le> w \<and> w \<le> 1" "near 2 x n" "1 / 255 \<le> x" "x \<le> 1"
    and "near k (a * x) s" "0 \<le> a" "3 \<le> k" "k + length ws \<le> 33" "a + sum_list ws \<le> 32"
  shows "\<exists>S. foldl b32_add (Fin False s) (map (\<lambda>w. b32_mul w (Fin False n)) (map (Fin False) ws))
               = Fin False S \<and>
             near (k + length ws) ((a + sum_list ws) * x) S"
  using assms(1,5-9)
proof (induction ws arbitrary: s a k)
  case Nil
  then show ?case by simp
next
  case (Cons w ws)
  have x0: "0 \<le> x" using assms(3) by simp
  have w: "1 / 2 \<le> w" "w \<le> 1" using Cons.prems(1) by simp_all
  have rest: "\<forall>w \<in> set ws. 1 / 2 \<le> w \<and> w \<le> 1" using Cons.prems(1) by simp
  have s0: "0 \<le> sum_list ws" using rest by (intro sum_list_nonneg) auto
  from product_near[OF w assms(2,3,4)]
  obtain p where p: "b32_mul (Fin False w) (Fin False n) = Fin False p" "near 3 (w * x) p" "0 < p"
    by blast
  have k: "k \<le> 32" using Cons.prems(5) by simp
  have "1 / 2 * (1 / 255) \<le> w * x" using w(1) assms(3) by (intro mult_mono) simp_all
  moreover have "0 \<le> a * x" using Cons.prems(3) x0 by simp
  ultimately have lo: "1 / 2 ^ 100 \<le> a * x + w * x" by simp
  have "a + w \<le> 32" using Cons.prems(6) s0 by simp
  then have "(a + w) * x \<le> 32 * 1" using assms(4) x0 Cons.prems(3) w(1) by (intro mult_mono) simp_all
  then have hi: "a * x + w * x \<le> 2 ^ 100" by (simp add: distrib_right)
  have ax: "0 \<le> a * x" "0 \<le> w * x" using Cons.prems(3) x0 w(1) by simp_all
  from sum_near[OF Cons.prems(2) p(2,3) Cons.prems(4) k ax lo hi]
  obtain c where c: "b32_add (Fin False s) (Fin False p) = Fin False c"
    "near (Suc k) (a * x + w * x) c" by blast
  have c': "near (Suc k) ((a + w) * x) c" using c(2) by (simp add: distrib_right)
  from Cons.IH[OF rest c', of ] Cons.prems(3,4,5,6) w(1)
  obtain S where "foldl b32_add (Fin False c) (map (\<lambda>w. b32_mul w (Fin False n)) (map (Fin False) ws))
      = Fin False S" "near (Suc k + length ws) ((a + w + sum_list ws) * x) S"
    by auto
  then show ?case using p(1) c(1) by (auto simp: add.assoc)
qed

lemma normalise_near:
  assumes "1 \<le> uint v"
  shows "\<exists>n. normalise binary32 v = Fin False n \<and> near 2 (real_of_int (uint v) / 255) n"
proof -
  define ki where "ki = uint v"
  define k where "k = real_of_int ki"
  have "ki \<le> 255" using unsigned_less[of v, where 'a = int] by (simp add: ki_def)
  moreover have "1 \<le> ki" using assms by (simp add: ki_def)
  ultimately have k: "1 \<le> k" "k \<le> 255" by (simp_all add: k_def)
  have "(1::real) / 2 ^ 100 \<le> 1" "(255::real) \<le> 2 ^ 100" by simp_all
  then have lo: "1 / 2 ^ 100 \<le> k" and hi: "k \<le> 2 ^ 100" using k by linarith+
  from mk_near[OF near_refl _ lo hi, of False]
  obtain a where a: "mk False k = Fin False a" "near (Suc 0) k a" "0 < a" by auto
  have "1 / 2 ^ 100 \<le> k / 255" "k / 255 \<le> 2 ^ 100" using lo hi k by (simp_all add: field_simps)
  from mk_near[OF near_div[OF a(2), of 255] _ this, of False]
  obtain n where n: "mk False (a / 255) = Fin False n" "near (Suc (Suc 0)) (k / 255) n" by auto
  have "b32_of_int ki = Fin False a"
    using a(1) \<open>1 \<le> ki\<close> unfolding b32_of_int_def k_def by (simp add: abs_of_nonneg)
  then have "fdiv binary32 (fof_int binary32 ki) (fof_int binary32 255) = Fin False n"
    using n(1) a(3) by (simp add: binary32_def of_int_255 abs_of_nonneg)
  then have "normalise binary32 v = Fin False n" unfolding normalise_def ki_def .
  moreover have "near 2 (real_of_int (uint v) / 255) n"
    using n(2) unfolding k_def ki_def by (simp only: numeral_2_eq_2)
  ultimately show ?thesis by blast
qed

lemma ratio_bounds:
  "21171365 / 1048576 / (5292841 / 262144) * (1 + eps32) ^ 32 < 256 / 255"
  "254 / 255 \<le> 21171365 / 1048576 / (5292841 / 262144) * (1 - eps32) ^ 32"
  by (simp_all add: eps32_def power_divide)

lemma near_32:
  assumes "near k X r" "k \<le> 32" "0 \<le> X"
  shows "X * (1 - eps32) ^ 32 \<le> r" "r \<le> X * (1 + eps32) ^ 32"
  using near_mono[OF assms] unfolding near_def by simp_all

lemma floor_cases:
  fixes z :: real and k :: int
  assumes "of_int k - 1 \<le> z" "z < of_int k + 1"
  shows "\<lfloor>z\<rfloor> = k \<or> \<lfloor>z\<rfloor> = k - 1"
proof -
  have "k - 1 \<le> \<lfloor>z\<rfloor>" using assms(1) by (simp add: le_floor_iff)
  moreover have "z < of_int (k + 1)" using assms(2) by simp
  then have "\<lfloor>z\<rfloor> < k + 1" by (simp only: floor_less_iff)
  ultimately show ?thesis by linarith
qed

lemma scaled_nearly:
  fixes ki :: int
  assumes ki: "1 \<le> ki" "ki \<le> 255"
    and S: "near 28 (21171365 / 1048576 * (real_of_int ki / 255)) S"
  shows "\<exists>z. fmul binary32
               (std_min binary32
                  (std_max binary32 (fdiv binary32 (Fin False S) (Fin False (5292841 / 262144)))
                     (fof_int binary32 0))
                  (fof_int binary32 1))
               (fof_int binary32 255) = Fin False z \<and>
             0 \<le> z \<and> (\<lfloor>z\<rfloor> = ki \<or> \<lfloor>z\<rfloor> = ki - 1)"
proof -
  define x where "x = real_of_int ki / 255"
  define A :: real where "A = 21171365 / 1048576"
  define K :: real where "K = 5292841 / 262144"
  define \<rho> where "\<rho> = A / K"
  have x: "1 / 255 \<le> x" "x \<le> 1" using ki by (simp_all add: x_def)
  have x0: "0 \<le> x" using x(1) by simp
  have kx: "real_of_int ki = 255 * x" by (simp add: x_def)
  have K0: "0 < K" by (simp add: K_def)
  have \<rho>: "1 \<le> \<rho>" "\<rho> \<le> 2" by (simp_all add: \<rho>_def A_def K_def)
  have hi: "\<rho> * (1 + eps32) ^ 32 < 256 / 255" and lo: "254 / 255 \<le> \<rho> * (1 - eps32) ^ 32"
    using ratio_bounds by (simp_all add: \<rho>_def A_def K_def)
  have \<rho>x: "1 / 255 \<le> \<rho> * x" "\<rho> * x \<le> 2"
  proof -
    have "1 * (1 / 255) \<le> \<rho> * x" using \<rho>(1) x(1) by (intro mult_mono) simp_all
    then show "1 / 255 \<le> \<rho> * x" by simp
    have "\<rho> * x \<le> 2 * 1" using \<rho> x(2) x0 by (intro mult_mono) simp_all
    then show "\<rho> * x \<le> 2" by simp
  qed
  have \<rho>x0: "0 \<le> \<rho> * x" using \<rho>x(1) by simp
  have S': "near 28 (A * x) S" using S by (simp add: A_def x_def)
  have Ax: "0 \<le> A * x" using x0 by (simp add: A_def)
  have eq: "A * x / K = \<rho> * x" by (simp add: \<rho>_def)
  have "(1::real) / 2 ^ 100 \<le> 1 / 255" "(2::real) \<le> 2 ^ 100" by simp_all
  then have rng: "1 / 2 ^ 100 \<le> \<rho> * x" "\<rho> * x \<le> 2 ^ 100" using \<rho>x by linarith+
  from mk_near[OF near_div[OF S' K0, unfolded eq] _ rng, of False]
  obtain q where q: "mk False (S / K) = Fin False q" "near 29 (\<rho> * x) q" "0 < q" by auto
  have S0: "0 \<le> S" using near_nonneg[OF S' Ax] .
  have div: "fdiv binary32 (Fin False S) (Fin False (5292841 / 262144)) = Fin False q"
    using q(1) S0 K0 by (simp add: binary32_def abs_of_nonneg K_def)
  have sel: "fmul binary32 = b32_mul" "fof_int binary32 255 = Fin False 255"
    by (simp_all add: binary32_def of_int_255)
  show ?thesis
  proof (cases "1 < q")
    case True
    have clamp: "std_min binary32 (std_max binary32 (Fin False q) (fof_int binary32 0)) (fof_int binary32 1)
      = Fin False 1"
      using q(3) True by (simp add: std_min_def std_max_def binary32_def b32_of_int_1 val_def)
    have "mk False 255 = Fin False 255" using of_int_255 by (simp add: b32_of_int_def)
    then have mul: "b32_mul (Fin False 1) (Fin False 255) = Fin False 255" by simp
    have "q \<le> \<rho> * x * (1 + eps32) ^ 32" using near_32(2)[OF q(2) _ \<rho>x0] by simp
    also have "\<dots> = x * (\<rho> * (1 + eps32) ^ 32)" by simp
    also have "\<dots> \<le> x * (256 / 255)" using hi x0 by (intro mult_left_mono) simp_all
    finally have "255 * 255 < 256 * real_of_int ki" using True by (simp add: x_def)
    then have "255 * 255 < 256 * ki" by linarith
    then have "ki = 255" using ki(2) by linarith
    then show ?thesis unfolding div clamp sel mul by simp
  next
    case False
    have clamp: "std_min binary32 (std_max binary32 (Fin False q) (fof_int binary32 0)) (fof_int binary32 1)
      = Fin False q"
      using q(3) False by (simp add: std_min_def std_max_def binary32_def b32_of_int_1 val_def)
    have rng': "1 / 2 ^ 100 \<le> 255 * (\<rho> * x)" "255 * (\<rho> * x) \<le> 2 ^ 100"
    proof -
      have "(1::real) / 2 ^ 100 \<le> 255 * (1 / 255)" "255 * (2::real) \<le> 2 ^ 100" by simp_all
      moreover have "255 * (1 / 255) \<le> 255 * (\<rho> * x)" "255 * (\<rho> * x) \<le> 255 * 2"
        using \<rho>x by (intro mult_left_mono; simp)+
      ultimately show "1 / 2 ^ 100 \<le> 255 * (\<rho> * x)" "255 * (\<rho> * x) \<le> 2 ^ 100" by linarith+
    qed
    have sc: "near 29 (255 * (\<rho> * x)) (255 * q)" using q(2) by (rule near_scale) simp
    from mk_near[OF sc _ rng', of False]
    obtain z where z: "mk False (255 * q) = Fin False z" "near 30 (255 * (\<rho> * x)) z" "0 < z" by auto
    have mul: "b32_mul (Fin False q) (Fin False 255) = Fin False z"
      using z(1) q(3) by (simp add: abs_of_nonneg mult.commute)
    have X0: "0 \<le> 255 * (\<rho> * x)" using \<rho>x0 by simp
    have k0: "0 \<le> real_of_int ki" using ki(1) by simp
    have "255 * (\<rho> * x) * C = 255 * x * (\<rho> * C)" for C by (simp only: mult_ac)
    then have e: "255 * (\<rho> * x) * (1 - eps32) ^ 32 = real_of_int ki * (\<rho> * (1 - eps32) ^ 32)"
      "255 * (\<rho> * x) * (1 + eps32) ^ 32 = real_of_int ki * (\<rho> * (1 + eps32) ^ 32)"
      by (simp_all only: kx)
    have n32: "255 * (\<rho> * x) * (1 - eps32) ^ 32 \<le> z" "z \<le> 255 * (\<rho> * x) * (1 + eps32) ^ 32"
      using near_32[OF z(2) _ X0] by simp_all
    have zb: "real_of_int ki * (\<rho> * (1 - eps32) ^ 32) \<le> z" "z \<le> real_of_int ki * (\<rho> * (1 + eps32) ^ 32)"
      unfolding e(1)[symmetric] e(2)[symmetric] by (rule n32)+
    have "real_of_int ki * (254 / 255) \<le> real_of_int ki * (\<rho> * (1 - eps32) ^ 32)"
      using lo k0 by (rule mult_left_mono)
    moreover have "real_of_int ki - 1 \<le> real_of_int ki * (254 / 255)" using ki(2) by simp
    ultimately have low: "of_int ki - 1 \<le> z" using zb(1) by linarith
    have "real_of_int ki * (\<rho> * (1 + eps32) ^ 32) < real_of_int ki * (256 / 255)"
      using hi ki(1) by (intro mult_strict_left_mono) simp_all
    moreover have "real_of_int ki * (256 / 255) \<le> real_of_int ki + 1" using ki(2) by simp
    ultimately have up: "z < of_int ki + 1" using zb(2) by linarith
    show ?thesis unfolding div clamp sel mul using floor_cases[OF low up] z(3) by simp
  qed
qed

lemma flat_byte_nearly:
  "flat_byte binary32 (Fin False 3) (Fin False (13421773 / 67108864)) v = v \<or>
   flat_byte binary32 (Fin False 3) (Fin False (13421773 / 67108864)) v = v - 1"
proof (cases "uint v = 0")
  case True
  then have "v = 0" by (simp add: unsigned_eq_0_iff)
  then show ?thesis using flat_byte_0 by simp
next
  case False
  define ki where "ki = uint v"
  define x where "x = real_of_int ki / 255"
  have "0 \<le> uint v" "uint v < 256" using unsigned_less[of v, where 'a = int] by simp_all
  then have ki: "1 \<le> ki" "ki \<le> 255" using False unfolding ki_def by linarith+
  have x: "1 / 255 \<le> x" "x \<le> 1" using ki by (simp_all add: x_def)
  from normalise_near[of v] ki(1)
  obtain n where n: "normalise binary32 v = Fin False n" "near 2 x n"
    unfolding ki_def x_def by blast
  have z3: "near 3 (0 * x) 0" by (simp add: near_zero)
  have "\<exists>S. foldl b32_add (Fin False 0) (map (\<lambda>w. b32_mul w (Fin False n)) weights_3) = Fin False S \<and>
      near 28 (21171365 / 1048576 * x) S"
    using fold_near[OF weights_3_real_range n(2) x z3] weights_3_real_sum
    unfolding weights_3_real by simp
  then obtain S where S: "foldl b32_add (Fin False 0) (map (\<lambda>w. b32_mul w (Fin False n)) weights_3) = Fin False S"
    "near 28 (21171365 / 1048576 * (real_of_int ki / 255)) S"
    unfolding x_def by blast
  from scaled_nearly[OF ki S(2)]
  obtain z where z: "fmul binary32
               (std_min binary32
                  (std_max binary32 (fdiv binary32 (Fin False S) (Fin False (5292841 / 262144)))
                     (fof_int binary32 0))
                  (fof_int binary32 1))
               (fof_int binary32 255) = Fin False z" "0 \<le> z" "\<lfloor>z\<rfloor> = ki \<or> \<lfloor>z\<rfloor> = ki - 1"
    by blast
  have "flat_byte binary32 (Fin False 3) (Fin False (13421773 / 67108864)) v = word_of_int \<lfloor>z\<rfloor>"
    unfolding flat_byte_3 n(1) S(1) quantise_def z(1) using z(2) by (simp add: binary32_def)
  moreover have "word_of_int ki = v" "word_of_int (ki - 1) = v - 1" by (simp_all add: ki_def)
  ultimately show ?thesis using z(3) by auto
qed

lemma flat_byte_within_one:
  "uint v - 1 \<le> uint (flat_byte binary32 (Fin False 3) (Fin False (13421773 / 67108864)) v) \<and>
   uint (flat_byte binary32 (Fin False 3) (Fin False (13421773 / 67108864)) v) \<le> uint v"
proof (cases "v = 0")
  case True
  then show ?thesis using flat_byte_0 by simp
next
  case False
  then have "1 \<le> v" by (simp add: word_le_nat_alt unat_gt_0 Suc_le_eq)
  then have "uint (v - 1) = uint v - 1" by (simp add: uint_minus_simple_alt)
  then show ?thesis using flat_byte_nearly[of v] by auto
qed

section \<open>The reference filter: the claims\<close>




text \<open>
  Claim C3.  For an image whose \<open>4*W*H\<close> bytes are indexed by an \<open>int\<close>, the alpha byte
  of every output pixel is the alpha byte of the same input pixel, whatever the arithmetic
  and the sigmas are.
\<close>

theorem alpha_passthrough:
  assumes "0 \<le> w" "0 \<le> h" "4 * w * h < 2 ^ 31"
    and "4 * w * h \<le> int (length input)" "4 * w * h \<le> int (length out0)"
  shows "\<exists>out. runReference ops sigmaDomain sigmaRange input out0 w h = Some out \<and>
           (\<forall>x y. 0 \<le> x \<and> x < w \<and> 0 \<le> y \<and> y < h \<longrightarrow>
              rd out ((x + y * w) * 4 + 3) = Some (input ! nat ((x + y * w) * 4 + 3)))"
proof -
  obtain out where out: "runReference ops sigmaDomain sigmaRange input out0 w h = Some out"
    and px: "\<And>x y c. 0 \<le> x \<and> x < w \<and> 0 \<le> y \<and> y < h \<and> 0 \<le> c \<and> c < 4 \<Longrightarrow>
      rd out ((x + y * w) * 4 + c) = reference_byte ops sigmaDomain sigmaRange input w h x y c"
    using runReference_pixels[OF assms(1,2,4,5), where ops = ops and sD = sigmaDomain
        and sR = sigmaRange] by blast
  have "rd out ((x + y * w) * 4 + 3) = Some (input ! nat ((x + y * w) * 4 + 3))"
    if "0 \<le> x" "x < w" "0 \<le> y" "y < h" for x y
  proof -
    have "rd input ((x + y * w) * 4 + 3) = Some (input ! nat ((x + y * w) * 4 + 3))"
      using channel_index_bounds[OF that _ _ assms(4), of 3] by (simp add: rd_def)
    then show ?thesis using px[of x y 3] that by (simp add: reference_byte_def)
  qed
  then show ?thesis using out by blast
qed

theorem alpha_passthrough_witness:
  "\<exists>out. runReference real_arith 3 (1 / 5) [10, 20, 30, 40, 50, 60, 70, 80] [0, 0, 0, 0, 0, 0, 0, 0] 2 1
      = Some out \<and> rd out 3 = Some 40 \<and> rd out 7 = Some 80"
proof -
  from alpha_passthrough[of 2 1 "[10, 20, 30, 40, 50, 60, 70, 80]" "[0, 0, 0, 0, 0, 0, 0, 0]"
      real_arith 3 "1 / 5"]
  obtain out where out: "runReference real_arith 3 (1 / 5) [10, 20, 30, 40, 50, 60, 70, 80]
        [0, 0, 0, 0, 0, 0, 0, 0] 2 1 = Some out"
    and px: "\<And>x y. 0 \<le> x \<and> x < 2 \<and> 0 \<le> y \<and> y < 1 \<Longrightarrow>
      rd out ((x + y * 2) * 4 + 3) = Some ([10, 20, 30, 40, 50, 60, 70, 80] ! nat ((x + y * 2) * 4 + 3))"
    by auto
  from px[of 0 0] px[of 1 0] out show ?thesis by simp
qed

text \<open>
  Claim C4.  For every pixel \<open>(x, y)\<close> of the image and every offset \<open>(i, j)\<close>, the
  coordinates sampled are \<open>x + i\<close> clamped to \<open>[0, W-1]\<close> and \<open>y + j\<close> clamped to
  \<open>[0, H-1]\<close>, so they lie in the image, and the sample is the three normalised colour
  bytes of the input pixel at the clamped coordinates.  One round of the inner loop adds
  that sample with its weight to the accumulators, and the two loops together are the
  fold of these rounds over the 25 offsets: no other byte of the input enters.  For the
  pixel \<open>(0, 0)\<close>, a sample whose offsets \<open>i\<close> and \<open>j\<close> are both negative (or zero) is read at
  \<open>(0, 0)\<close>: its three channels are the normalised bytes 0, 1 and 2 of the input, not
  zeros and not the bytes of a pixel at the opposite edge.
\<close>

theorem edge_replicate:
  assumes "0 < w" "0 < h" "4 * w * h < 2 ^ 31" "4 * w * h \<le> int (length input)"
    and "0 \<le> x" "x < w" "0 \<le> y" "y < h"
  shows "sample_xy w h x y i j = (spec_clamp 0 (w - 1) (x + i), spec_clamp 0 (h - 1) (y + j)) \<and>
         0 \<le> fst (sample_xy w h x y i j) \<and> fst (sample_xy w h x y i j) \<le> w - 1 \<and>
         0 \<le> snd (sample_xy w h x y i j) \<and> snd (sample_xy w h x y i j) \<le> h - 1 \<and>
         sample ops input w h x y i j
           = Some (normalise ops (input ! nat ((spec_clamp 0 (w - 1) (x + i)
                                                + spec_clamp 0 (h - 1) (y + j) * w) * 4 + 0)),
                   normalise ops (input ! nat ((spec_clamp 0 (w - 1) (x + i)
                                                + spec_clamp 0 (h - 1) (y + j) * w) * 4 + 1)),
                   normalise ops (input ! nat ((spec_clamp 0 (w - 1) (x + i)
                                                + spec_clamp 0 (h - 1) (y + j) * w) * 4 + 2))) \<and>
         accumulate ops sigmaDomain sigmaRange input w h x y c j i a
           = Some (acc_step ops (sample_weight ops sigmaDomain sigmaRange input w h x y c)
                     (spec_sample ops input w h x y) a (i, j)) \<and>
         neighbourhood ops sigmaDomain sigmaRange input w h x y c
           = Some (foldl (acc_step ops (sample_weight ops sigmaDomain sigmaRange input w h x y c)
                                        (spec_sample ops input w h x y))
                     (zero_acc ops) spec_offsets) \<and>
         (i \<le> 0 \<and> j \<le> 0 \<longrightarrow>
            sample_xy w h 0 0 i j = (0, 0) \<and>
            sample ops input w h 0 0 i j
              = Some (normalise ops (input ! 0), normalise ops (input ! 1), normalise ops (input ! 2)))"
proof -
  have dims: "0 < w" "0 < h" "4 * w * h \<le> int (length input)" using assms by simp_all
  have xy0: "sample_xy w h 0 0 i j = (0, 0)" if "i \<le> 0" "j \<le> 0"
    using that assms(1,2) by (simp add: sample_xy_def)
  have s0: "sample ops input w h 0 0 i j
      = Some (normalise ops (input ! 0), normalise ops (input ! 1), normalise ops (input ! 2))"
    if "i \<le> 0" "j \<le> 0"
  proof -
    have "rd input c = Some (input ! nat c)" if "0 \<le> c" "c < 4" for c
      using channel_index_bounds[of 0 w 0 h c "int (length input)"] assms(1,2,4) that
      by (simp add: rd_def)
    from this[of 0] this[of 1] this[of 2] show ?thesis by (simp add: sample_def xy0[OF that])
  qed
  have s: "sample ops input w h x y i j
           = Some (normalise ops (input ! nat ((spec_clamp 0 (w - 1) (x + i)
                                                + spec_clamp 0 (h - 1) (y + j) * w) * 4 + 0)),
                   normalise ops (input ! nat ((spec_clamp 0 (w - 1) (x + i)
                                                + spec_clamp 0 (h - 1) (y + j) * w) * 4 + 1)),
                   normalise ops (input ! nat ((spec_clamp 0 (w - 1) (x + i)
                                                + spec_clamp 0 (h - 1) (y + j) * w) * 4 + 2)))"
    unfolding sample_eq[OF dims] by (simp only: spec_sample_def normalise_def prod.case)
  show ?thesis
    using sample_xy_clamp[OF assms(1,2), of x y i j] sample_xy_bounds[OF assms(1,2), of x y i j]
      xy0 s0 s accumulate_eq[OF dims, of ops sigmaDomain sigmaRange x y c j i a]
      neighbourhood_fold[OF dims, of ops sigmaDomain sigmaRange x y c]
    by simp
qed

theorem edge_replicate_witness:
  "sample_xy 3 3 0 0 (- 2) (- 1) = (0, 0) \<and>
   sample_xy 3 3 2 2 2 1 = (2, 2) \<and>
   sample real_arith (map of_nat [0..<36]) 3 3 0 0 (- 2) (- 1)
     = Some (normalise real_arith 0, normalise real_arith 1, normalise real_arith 2) \<and>
   sample real_arith (map of_nat [0..<36]) 3 3 2 2 2 1
     = Some (normalise real_arith 32, normalise real_arith 33, normalise real_arith 34) \<and>
   sample real_arith (map of_nat [0..<36]) 3 3 1 2 (- 2) 1
     = Some (normalise real_arith 24, normalise real_arith 25, normalise real_arith 26)"
proof -
  have l: "4 * 3 * 3 \<le> int (length (map of_nat [0..<36] :: buffer))" by simp
  have n: "(map of_nat [0..<36] :: buffer) ! k = of_nat k" if "k < 36" for k
    using that by (simp del: upt_Suc)
  from edge_replicate[OF _ _ _ l, of 0 0 "- 2" "- 1" real_arith 3 "1 / 5" "(0, 0, 0)" "zero_acc real_arith"]
  have a: "sample_xy 3 3 0 0 (- 2) (- 1) = (0, 0)"
    "sample real_arith (map of_nat [0..<36]) 3 3 0 0 (- 2) (- 1)
     = Some (normalise real_arith 0, normalise real_arith 1, normalise real_arith 2)"
    by (simp_all add: spec_clamp_def n del: upt_Suc map_upt_Suc)
  from edge_replicate[OF _ _ _ l, of 2 2 2 1 real_arith 3 "1 / 5" "(0, 0, 0)" "zero_acc real_arith"]
  have b: "sample_xy 3 3 2 2 2 1 = (2, 2)"
    "sample real_arith (map of_nat [0..<36]) 3 3 2 2 2 1
     = Some (normalise real_arith 32, normalise real_arith 33, normalise real_arith 34)"
    by (simp_all add: spec_clamp_def n del: upt_Suc map_upt_Suc)
  from edge_replicate[OF _ _ _ l, of 1 2 "- 2" 1 real_arith 3 "1 / 5" "(0, 0, 0)" "zero_acc real_arith"]
  have c: "sample real_arith (map of_nat [0..<36]) 3 3 1 2 (- 2) 1
     = Some (normalise real_arith 24, normalise real_arith 25, normalise real_arith 26)"
    by (simp_all add: spec_clamp_def n del: upt_Suc map_upt_Suc)
  from a b c show ?thesis by simp
qed

text \<open>
  Claim C5, as amended.  In single precision, for every pixel of an image with \<open>W > 0\<close>
  and \<open>H > 0\<close>, the loops return accumulators whose \<open>coeff\<close> is the divisor of the three
  output channels, and
  \<^item> when both \<open>1.f/sigmaDomain\<close> and \<open>1.f/sigmaRange\<close> are finite, \<open>coeff\<close> is finite and
    lies in \<open>[1, 25]\<close> (the centre sample has weight exactly 1, every weight lies in
    \<open>[0, 1]\<close>), so it is strictly positive;
  \<^item> when one of the two reciprocals is not finite, the weight of the centre sample is
    \<open>exp(-0.5f * (0 * inf)\<^sup>2)\<close>, which is NaN, and so is \<open>coeff\<close>; \<open>0 < coeff\<close> is false
    and nothing guards the division;
  \<^item> the reciprocal is finite for every sigma of magnitude at least \<open>2^(-126)\<close> (every normal
    \<open>float\<close>, of either sign), and infinite for sigma \<open>= 0\<close> and for every sigma of magnitude
    at most \<open>2^(-128)\<close>, which includes positive (subnormal) values.
\<close>

theorem normalisation_sum:
  assumes "0 < w" "0 < h" "4 * w * h < 2 ^ 31" "4 * w * h \<le> int (length input)"
    and "0 \<le> x" "x < w" "0 \<le> y" "y < h"
  shows "\<exists>a. neighbourhood binary32 sigmaDomain sigmaRange input w h x y
               (centre_sample binary32 input w x y) = Some a \<and>
           (\<forall>c. 0 \<le> c \<and> c < 3 \<longrightarrow>
              reference_byte binary32 sigmaDomain sigmaRange input w h x y c
                = Some (quantise binary32 (if c = 0 then sr a else if c = 1 then sg a else sb a)
                          (coeff a))) \<and>
           (is_finite (fdiv binary32 (fof_int binary32 1) sigmaDomain) \<and>
            is_finite (fdiv binary32 (fof_int binary32 1) sigmaRange) \<longrightarrow>
              (\<exists>m. coeff a = Fin False m \<and> 1 \<le> m \<and> m \<le> 25) \<and>
              fless binary32 (fof_int binary32 0) (coeff a)) \<and>
           (\<not> (is_finite (fdiv binary32 (fof_int binary32 1) sigmaDomain) \<and>
               is_finite (fdiv binary32 (fof_int binary32 1) sigmaRange)) \<longrightarrow>
              coeff a = NaN \<and> \<not> fless binary32 (fof_int binary32 0) (coeff a)) \<and>
           (\<forall>s m. 1 / 2 ^ 126 \<le> m \<longrightarrow> is_finite (fdiv binary32 (fof_int binary32 1) (Fin s m))) \<and>
           (\<forall>s m. 0 \<le> m \<and> m \<le> 1 / 2 ^ 128 \<longrightarrow>
              fdiv binary32 (fof_int binary32 1) (Fin s m) = Inf s) \<and>
           sample_weight binary32 sigmaDomain sigmaRange input w h x y
               (centre_sample binary32 input w x y) (0, 0)
             = (if is_finite (fdiv binary32 (fof_int binary32 1) sigmaDomain) \<and>
                   is_finite (fdiv binary32 (fof_int binary32 1) sigmaRange)
                then Fin False 1 else NaN)"
proof -
  have dims: "0 < w" "0 < h" "4 * w * h \<le> int (length input)" using assms by simp_all
  have px: "0 \<le> x" "x < w" "0 \<le> y" "y < h" using assms by simp_all
  let ?c = "centre_sample binary32 input w x y"
  from coeff_binary32[OF dims px, of sigmaDomain sigmaRange]
  obtain a where a: "neighbourhood binary32 sigmaDomain sigmaRange input w h x y ?c = Some a"
    and k: "if is_finite (b32_div (b32_of_int 1) sigmaDomain) \<and> is_finite (b32_div (b32_of_int 1) sigmaRange)
          then \<exists>m. coeff a = Fin False m \<and> 1 \<le> m \<and> m \<le> 25 else coeff a = NaN"
    by auto
  have rd: "rd input ((x + y * w) * 4 + c) = Some (input ! nat ((x + y * w) * 4 + c))"
    if "0 \<le> c" "c < 4" for c
    using channel_index_bounds[OF px that dims(3)] by (simp add: rd_def)
  have bytes: "reference_byte binary32 sigmaDomain sigmaRange input w h x y c
      = Some (quantise binary32 (if c = 0 then sr a else if c = 1 then sg a else sb a) (coeff a))"
    if "0 \<le> c" "c < 3" for c
    using reference_byte_rgb[OF rd[of 0] rd[of 1] rd[of 2], of binary32 sigmaDomain sigmaRange h a c]
      a that by (simp add: centre_sample_def)
  have fin: "is_finite (fdiv binary32 (fof_int binary32 1) (Fin s m))" if "1 / 2 ^ 126 \<le> m" for s m
    using recip_finite[OF that] by (simp add: binary32_def)
  have tiny: "fdiv binary32 (fof_int binary32 1) (Fin s m) = Inf s" if "0 \<le> m" "m \<le> 1 / 2 ^ 128" for s m
    using recip_tiny[of m s] recip_zero[of s] that by (cases "m = 0") (simp_all add: binary32_def)
  have sel: "fdiv binary32 = b32_div" "fof_int binary32 = b32_of_int" "fless binary32 = b32_less"
    by (simp_all add: binary32_def)
  have pos: "fless binary32 (fof_int binary32 0) (coeff a)" if "coeff a = Fin False m" "1 \<le> m" for m
    using that by (simp add: sel val_def)
  have neg: "\<not> fless binary32 (fof_int binary32 0) (coeff a)" if "coeff a = NaN"
    using that by (simp add: sel)
  have centre: "sample_weight binary32 sigmaDomain sigmaRange input w h x y ?c (0, 0)
      = (if is_finite (b32_div (b32_of_int 1) sigmaDomain) \<and> is_finite (b32_div (b32_of_int 1) sigmaRange)
         then Fin False 1 else NaN)"
    by (rule centre_weight_binary32[OF px])
  show ?thesis
    using a bytes k pos neg fin tiny centre unfolding sel
    by (intro exI[of _ a]) (auto split: if_splits)
qed

theorem normalisation_sum_witness:
  "\<exists>a. neighbourhood binary32 (Fin False 3) (Fin False (13421773 / 67108864)) [10, 20, 30, 40] 1 1 0 0
          (centre_sample binary32 [10, 20, 30, 40] 1 0 0) = Some a \<and>
        reference_byte binary32 (Fin False 3) (Fin False (13421773 / 67108864)) [10, 20, 30, 40] 1 1 0 0 0
          = Some (quantise binary32 (sr a) (coeff a)) \<and>
        (\<exists>m. coeff a = Fin False m \<and> 1 \<le> m \<and> m \<le> 25) \<and>
        fless binary32 (fof_int binary32 0) (coeff a)"
proof -
  have l: "4 * 1 * 1 \<le> int (length [10, 20, 30, 40 :: u8])" by simp
  from normalisation_sum[OF _ _ _ l, of 0 0 "Fin False 3" "Fin False (13421773 / 67108864)"]
  obtain a where a: "neighbourhood binary32 (Fin False 3) (Fin False (13421773 / 67108864))
        [10, 20, 30, 40] 1 1 0 0 (centre_sample binary32 [10, 20, 30, 40] 1 0 0) = Some a"
    and b: "\<And>c. 0 \<le> c \<and> c < 3 \<Longrightarrow>
        reference_byte binary32 (Fin False 3) (Fin False (13421773 / 67108864)) [10, 20, 30, 40] 1 1 0 0 c
          = Some (quantise binary32 (if c = 0 then sr a else if c = 1 then sg a else sb a) (coeff a))"
    and p: "is_finite (fdiv binary32 (fof_int binary32 1) (Fin False 3)) \<and>
            is_finite (fdiv binary32 (fof_int binary32 1) (Fin False (13421773 / 67108864))) \<longrightarrow>
              (\<exists>m. coeff a = Fin False m \<and> 1 \<le> m \<and> m \<le> 25) \<and>
              fless binary32 (fof_int binary32 0) (coeff a)"
    and f: "\<And>s m. 1 / 2 ^ 126 \<le> m \<Longrightarrow> is_finite (fdiv binary32 (fof_int binary32 1) (Fin s m))"
    by auto
  have "(1::real) / 2 ^ 126 \<le> 3" "(1::real) / 2 ^ 126 \<le> 13421773 / 67108864" by simp_all
  then have "(\<exists>m. coeff a = Fin False m \<and> 1 \<le> m \<and> m \<le> 25) \<and>
      fless binary32 (fof_int binary32 0) (coeff a)"
    using p f by blast
  then show ?thesis using a b[of 0] by auto
qed

text \<open>
  Claim C5 as stated fails for a positive sigma: with \<open>sigmaDomain = 2^(-149)\<close>, the least
  positive \<open>float\<close>, \<open>1.f/sigmaDomain\<close> overflows to infinity and the sum of the weights
  is NaN, not a positive number.
\<close>

theorem normalisation_sum_counterexample:
  "fless binary32 (fof_int binary32 0) (Fin False (1 / 2 ^ 149)) \<and>
   fdiv binary32 (fof_int binary32 1) (Fin False (1 / 2 ^ 149)) = Inf False \<and>
   map_option coeff
     (neighbourhood binary32 (Fin False (1 / 2 ^ 149)) (Fin False (13421773 / 67108864))
        [10, 20, 30, 40] 1 1 0 0 (centre_sample binary32 [10, 20, 30, 40] 1 0 0)) = Some NaN \<and>
   \<not> fless binary32 (fof_int binary32 0) NaN"
proof -
  have r: "b32_div (b32_of_int 1) (Fin False (1 / 2 ^ 149)) = Inf False"
    by (rule recip_tiny) simp_all
  have nf: "\<not> (is_finite (b32_div (b32_of_int 1) (Fin False (1 / 2 ^ 149))) \<and>
      is_finite (b32_div (b32_of_int 1) (Fin False (13421773 / 67108864))))"
    unfolding r by (simp add: is_finite_def)
  have l: "4 * 1 * 1 \<le> int (length [10, 20, 30, 40 :: u8])" by simp
  have z: "(0::int) < 1" "(0::int) \<le> 0" by simp_all
  from coeff_binary32[OF z(1) z(1) l z(2) z(1) z(2) z(1), of "Fin False (1 / 2 ^ 149)"
      "Fin False (13421773 / 67108864)"]
  obtain k where k: "map_option coeff
     (neighbourhood binary32 (Fin False (1 / 2 ^ 149)) (Fin False (13421773 / 67108864))
        [10, 20, 30, 40] 1 1 0 0 (centre_sample binary32 [10, 20, 30, 40] 1 0 0)) = Some k"
    "if is_finite (b32_div (b32_of_int 1) (Fin False (1 / 2 ^ 149))) \<and>
        is_finite (b32_div (b32_of_int 1) (Fin False (13421773 / 67108864)))
     then \<exists>m. k = Fin False m \<and> 1 \<le> m \<and> m \<le> 25 else k = NaN"
    by blast
  from k(2) nf have "k = NaN" by (simp only: if_False simp_thms)
  then have c: "map_option coeff
     (neighbourhood binary32 (Fin False (1 / 2 ^ 149)) (Fin False (13421773 / 67108864))
        [10, 20, 30, 40] 1 1 0 0 (centre_sample binary32 [10, 20, 30, 40] 1 0 0)) = Some NaN"
    using k(1) by simp
  have sel: "fdiv binary32 = b32_div" "fof_int binary32 = b32_of_int" "fless binary32 = b32_less"
    by (simp_all add: binary32_def)
  have "b32_less (b32_of_int 0) (Fin False (1 / 2 ^ 149))" by (simp add: val_def)
  moreover have "\<not> b32_less (b32_of_int 0) NaN" by simp
  ultimately show ?thesis unfolding sel using r c by blast
qed

text \<open>
  Claim C6.  The output of \<open>runReference\<close> is a function of the input image, the
  dimensions and the sigmas alone: two runs on the same input fill their output buffers
  with the same bytes, whatever the buffers held before.
\<close>

theorem reference_deterministic:
  assumes "0 \<le> w" "0 \<le> h" "4 * w * h < 2 ^ 31"
    and "4 * w * h \<le> int (length input)"
    and "int (length out1) = 4 * w * h" "int (length out2) = 4 * w * h"
  shows "\<exists>out. runReference ops sigmaDomain sigmaRange input out1 w h = Some out \<and>
               runReference ops sigmaDomain sigmaRange input out2 w h = Some out"
proof -
  obtain r1 where r1: "runReference ops sigmaDomain sigmaRange input out1 w h = Some r1"
    "written ops sigmaDomain sigmaRange input w h out1 (w * h) r1"
    using runReference_written[OF assms(1,2,4), of out1 ops sigmaDomain sigmaRange] assms(5)
    by auto
  obtain r2 where r2: "runReference ops sigmaDomain sigmaRange input out2 w h = Some r2"
    "written ops sigmaDomain sigmaRange input w h out2 (w * h) r2"
    using runReference_written[OF assms(1,2,4), of out2 ops sigmaDomain sigmaRange] assms(6)
    by auto
  have "rd r1 k = rd r2 k" for k
  proof (cases "0 \<le> k \<and> k < 4 * (w * h)")
    case True
    then show ?thesis using r1(2) r2(2) by (simp add: written_def)
  next
    case False
    then have "rd out1 k = None" "rd out2 k = None" using assms(5,6) by (auto simp: rd_def)
    then show ?thesis using r1(2) r2(2) False by (auto simp: written_def)
  qed
  then have "r1 = r2" by (rule rd_ext)
  then show ?thesis using r1(1) r2(1) by simp
qed

theorem reference_deterministic_witness:
  "\<exists>out. runReference real_arith 3 (1 / 5) [10, 20, 30, 40] [0, 0, 0, 0] 1 1 = Some out \<and>
         runReference real_arith 3 (1 / 5) [10, 20, 30, 40] [9, 8, 7, 6] 1 1 = Some out"
  using reference_deterministic[of 1 1 "[10, 20, 30, 40]" "[0, 0, 0, 0]" "[9, 8, 7, 6]"
      real_arith 3 "1 / 5"]
  by simp

text \<open>
  Claim C7, as amended.  On a flat image of colour value \<open>v\<close>, of any size \<open>W > 0\<close>, \<open>H > 0\<close>
  (2 by 2 in the claim), \<open>runReference\<close> stores the same byte \<open>flat_byte\<close> in the three
  colour channels of every pixel, and the input's alpha.  In exact arithmetic the byte is
  \<open>v\<close> for all sigmas.  In single precision with \<open>sigmaDomain = 3\<close> and \<open>sigmaRange = 0.2\<close> it
  is \<open>v\<close> or \<open>v - 1\<close>, for every \<open>v\<close>; it is \<open>v\<close> for \<open>v = 0\<close> and \<open>v = 255\<close>.
\<close>

theorem flat_region:
  assumes "0 < w" "0 < h" "4 * w * h < 2 ^ 31"
    and "4 * w * h \<le> int (length input)" "4 * w * h \<le> int (length out0)"
    and "flat_image input w h v"
  shows "(\<exists>out. runReference ops sigmaDomain sigmaRange input out0 w h = Some out \<and>
           (\<forall>x y. 0 \<le> x \<and> x < w \<and> 0 \<le> y \<and> y < h \<longrightarrow>
              (\<forall>c. 0 \<le> c \<and> c < 3 \<longrightarrow>
                 rd out ((x + y * w) * 4 + c) = Some (flat_byte ops sigmaDomain sigmaRange v)) \<and>
              rd out ((x + y * w) * 4 + 3) = Some (input ! nat ((x + y * w) * 4 + 3)))) \<and>
         flat_byte real_arith sD sR v = v \<and>
         flat_byte binary32 (Fin False 3) (Fin False (13421773 / 67108864)) 0 = 0 \<and>
         flat_byte binary32 (Fin False 3) (Fin False (13421773 / 67108864)) 255 = 255 \<and>
         uint v - 1 \<le> uint (flat_byte binary32 (Fin False 3) (Fin False (13421773 / 67108864)) v) \<and>
         uint (flat_byte binary32 (Fin False 3) (Fin False (13421773 / 67108864)) v) \<le> uint v"
  using flat_runReference[OF assms(1,2,4,5,6), of ops sigmaDomain sigmaRange]
    flat_byte_real[of sD sR v] flat_byte_0 flat_byte_255 flat_byte_within_one[of v]
  by blast

theorem flat_region_witness:
  "\<exists>out. runReference binary32 (Fin False 3) (Fin False (13421773 / 67108864))
      [255, 255, 255, 7, 255, 255, 255, 8, 255, 255, 255, 9, 255, 255, 255, 10]
      [0, 0, 0, 0, 0, 0, 0, 0, 0, 0, 0, 0, 0, 0, 0, 0] 2 2 = Some out \<and>
     rd out 0 = Some 255 \<and> rd out 5 = Some 255 \<and> rd out 14 = Some 255 \<and>
     rd out 3 = Some 7 \<and> rd out 15 = Some 10"
proof -
  let ?in = "[255, 255, 255, 7, 255, 255, 255, 8, 255, 255, 255, 9, 255, 255, 255, 10 :: u8]"
  let ?o = "[0, 0, 0, 0, 0, 0, 0, 0, 0, 0, 0, 0, 0, 0, 0, 0 :: u8]"
  have l: "4 * 2 * 2 \<le> int (length ?in)" "4 * 2 * 2 \<le> int (length ?o)" by simp_all
  have z: "(0::int) < 2" "4 * 2 * 2 < (2::int) ^ 31" by simp_all
  from flat_region[OF z(1) z(1) z(2) l flat_image_2x2, of binary32 "Fin False 3"
      "Fin False (13421773 / 67108864)" 3 "1 / 5"]
  obtain out where out: "runReference binary32 (Fin False 3) (Fin False (13421773 / 67108864))
        ?in ?o 2 2 = Some out"
    and rgb: "\<And>x y c. 0 \<le> x \<and> x < 2 \<and> 0 \<le> y \<and> y < 2 \<Longrightarrow> 0 \<le> c \<and> c < 3 \<Longrightarrow>
        rd out ((x + y * 2) * 4 + c)
          = Some (flat_byte binary32 (Fin False 3) (Fin False (13421773 / 67108864)) 255)"
    and alpha: "\<And>x y. 0 \<le> x \<and> x < 2 \<and> 0 \<le> y \<and> y < 2 \<Longrightarrow>
        rd out ((x + y * 2) * 4 + 3) = Some (?in ! nat ((x + y * 2) * 4 + 3))"
    and b: "flat_byte binary32 (Fin False 3) (Fin False (13421773 / 67108864)) 255 = 255"
    by blast
  from rgb[of 0 0 0] rgb[of 1 0 1] rgb[of 1 1 2] alpha[of 0 0] alpha[of 1 1] out b
  show ?thesis by simp
qed

text \<open>
  Claim C7 as stated fails for grey 128: in single precision, with \<open>sigmaDomain = 3\<close> and
  \<open>sigmaRange = 0.2\<close>, the output of the 2 by 2 image holds 127 in every colour channel.
\<close>

theorem flat_region_counterexample:
  "runReference binary32 (Fin False 3) (Fin False (13421773 / 67108864))
     [128, 128, 128, 255, 128, 128, 128, 255, 128, 128, 128, 255, 128, 128, 128, 255]
     [0, 0, 0, 0, 0, 0, 0, 0, 0, 0, 0, 0, 0, 0, 0, 0] 2 2
   = Some [127, 127, 127, 255, 127, 127, 127, 255, 127, 127, 127, 255, 127, 127, 127, 255]"
  by (rule grey_128_output)

section \<open>The verification loop: what it counts and prints\<close>

lemma unat_of_nat32: "n < 2 ^ 32 \<Longrightarrow> unat (of_nat n :: 32 word) = n"
  by (simp add: unat_of_nat)

lemma of_nat32_eq_0: "(of_nat n :: 32 word) = 0 \<longleftrightarrow> n = 0" if "n < 2 ^ 32"
proof
  assume "(of_nat n :: 32 word) = 0"
  then have "unat (of_nat n :: 32 word) = 0" by simp
  then show "n = 0" using unat_of_nat32[OF that] by simp
qed simp

lemma of_nat32_less_8: "n < 2 ^ 32 \<Longrightarrow> (of_nat n :: 32 word) < 8 \<longleftrightarrow> n < 8"
  using unat_of_nat32[of n] by (simp add: word_less_nat_alt)

lemma byte_diff_bounds: "0 \<le> \<bar>uint (a :: u8) - uint (b :: u8)\<bar>" "\<bar>uint a - uint b\<bar> \<le> 255"
proof -
  have "uint a < 256" "uint b < 256" "0 \<le> uint a" "0 \<le> uint b"
    using unsigned_less[of a, where 'a = int] unsigned_less[of b, where 'a = int] by simp_all
  then show "0 \<le> \<bar>uint a - uint b\<bar>" "\<bar>uint a - uint b\<bar> \<le> 255" by linarith+
qed

lemma tolerance_less_diff:
  "(tolerance :: 32 word) < word_of_int \<bar>uint (a :: u8) - uint (b :: u8)\<bar>
     \<longleftrightarrow> uint tolerance < \<bar>uint a - uint b\<bar>"
proof -
  have "uint (word_of_int \<bar>uint a - uint b\<bar> :: 32 word) = \<bar>uint a - uint b\<bar>"
    using byte_diff_bounds[of a b] by (simp add: uint_word_of_int)
  then show ?thesis by (simp add: word_less_def)
qed

lemma check_channel_eq:
  assumes "0 \<le> (x + y * w) * 4 + c" "(x + y * w) * 4 + c < int (length result)"
    "(x + y * w) * 4 + c < int (length reference)"
  shows "check_channel tolerance result reference w y x c st
           = Some (check_step tolerance result reference w st (y, x, c))"
proof -
  have r: "rd result ((x + y * w) * 4 + c) = Some (result ! nat ((x + y * w) * 4 + c))"
    "rd reference ((x + y * w) * 4 + c) = Some (reference ! nat ((x + y * w) * 4 + c))"
    using assms by (simp_all add: rd_def)
  show ?thesis
    unfolding check_channel_def r
    by (cases st) (simp add: check_step_def mismatch_def mismatch_line_def tolerance_less_diff Let_def)
qed

lemma foldl_product:
  "foldl f s (List.product xs ys) = foldl (\<lambda>s x. foldl (\<lambda>s y. f s (x, y)) s ys) s xs"
  by (induction xs arbitrary: s) (simp_all add: foldl_map)

lemma check_loops:
  assumes "4 * w * h \<le> int (length result)" "4 * w * h \<le> int (length reference)"
  shows "for_loop 0 h (\<lambda>y. for_loop 0 w
            (\<lambda>x. for_loop 0 3 (check_channel tolerance result reference w y x))) st
         = Some (foldl (check_step tolerance result reference w) st (cells w h))"
proof -
  let ?f = "check_step tolerance result reference w"
  have inner: "for_loop 0 3 (check_channel tolerance result reference w y x) t
      = Some (foldl (\<lambda>s c. ?f s (y, x, c)) t [0..2])"
    if "0 \<le> x" "x < w" "0 \<le> y" "y < h" for x y t
  proof -
    have "check_channel tolerance result reference w y x c u = Some (?f u (y, x, c))"
      if c: "0 \<le> c" "c < 3" for c u
      using channel_index_bounds[OF \<open>0 \<le> x\<close> \<open>x < w\<close> \<open>0 \<le> y\<close> \<open>y < h\<close> c(1) _ assms(1)]
        channel_index_bounds[OF \<open>0 \<le> x\<close> \<open>x < w\<close> \<open>0 \<le> y\<close> \<open>y < h\<close> c(1) _ assms(2)] c
      by (intro check_channel_eq) auto
    then show ?thesis
      using for_loop_foldl[of 0 3 "check_channel tolerance result reference w y x"
          "\<lambda>s c. ?f s (y, x, c)" t] by simp
  qed
  have row: "for_loop 0 w (\<lambda>x. for_loop 0 3 (check_channel tolerance result reference w y x)) t
      = Some (foldl (\<lambda>s x. foldl (\<lambda>s c. ?f s (y, x, c)) s [0..2]) t [0..w - 1])"
    if "0 \<le> y" "y < h" for y t
    using for_loop_foldl[of 0 w "\<lambda>x. for_loop 0 3 (check_channel tolerance result reference w y x)"
        "\<lambda>s x. foldl (\<lambda>s c. ?f s (y, x, c)) s [0..2]" t] inner that by simp
  have "for_loop 0 h (\<lambda>y. for_loop 0 w
            (\<lambda>x. for_loop 0 3 (check_channel tolerance result reference w y x))) st
      = Some (foldl (\<lambda>s y. foldl (\<lambda>s x. foldl (\<lambda>s c. ?f s (y, x, c)) s [0..2]) s [0..w - 1])
                st [0..h - 1])"
    using for_loop_foldl[of 0 h "\<lambda>y. for_loop 0 w
            (\<lambda>x. for_loop 0 3 (check_channel tolerance result reference w y x))"
        "\<lambda>s y. foldl (\<lambda>s x. foldl (\<lambda>s c. ?f s (y, x, c)) s [0..2]) s [0..w - 1]" st] row
    by simp
  then show ?thesis by (simp add: cells_def foldl_product)
qed

lemma foldl_check_step:
  assumes "length cs < 2 ^ 32"
  shows "foldl (check_step tolerance result reference w) \<lparr> errors = 0, printed = [] \<rparr> cs
    = \<lparr> errors = of_nat (length (filter (mismatch tolerance result reference w) cs)),
        printed = (if filter (mismatch tolerance result reference w) cs = [] then []
                   else [VerificationFailed])
                  @ map (mismatch_line result reference w)
                      (take 8 (filter (mismatch tolerance result reference w) cs)) \<rparr>"
  using assms
proof (induction cs rule: rev_induct)
  case Nil
  then show ?case by simp
next
  case (snoc c cs)
  let ?ms = "filter (mismatch tolerance result reference w) cs"
  have "length ?ms \<le> length cs" by (rule length_filter_le)
  moreover have "length cs < 2 ^ 32" using snoc.prems by simp
  ultimately have len: "length ?ms < 2 ^ 32" by (rule le_less_trans)
  have IH: "foldl (check_step tolerance result reference w) \<lparr> errors = 0, printed = [] \<rparr> cs
    = \<lparr> errors = of_nat (length ?ms),
        printed = (if ?ms = [] then [] else [VerificationFailed])
                  @ map (mismatch_line result reference w) (take 8 ?ms) \<rparr>"
    using snoc.IH \<open>length cs < 2 ^ 32\<close> by simp
  have "foldl (check_step tolerance result reference w) \<lparr> errors = 0, printed = [] \<rparr> (cs @ [c])
    = check_step tolerance result reference w
        \<lparr> errors = of_nat (length ?ms),
          printed = (if ?ms = [] then [] else [VerificationFailed])
                    @ map (mismatch_line result reference w) (take 8 ?ms) \<rparr> c"
    by (simp only: foldl_append foldl.simps IH)
  also have "\<dots> = \<lparr> errors = of_nat (length (filter (mismatch tolerance result reference w) (cs @ [c]))),
        printed = (if filter (mismatch tolerance result reference w) (cs @ [c]) = [] then []
                   else [VerificationFailed])
                  @ map (mismatch_line result reference w)
                      (take 8 (filter (mismatch tolerance result reference w) (cs @ [c]))) \<rparr>"
  proof (cases "mismatch tolerance result reference w c")
    case False
    then show ?thesis by (simp add: check_step_def)
  next
    case True
    then show ?thesis
      by (simp add: check_step_def of_nat32_eq_0[OF len] of_nat32_less_8[OF len])
  qed
  finally show ?case .
qed

lemma length_cells:
  assumes "0 \<le> w" "0 \<le> h"
  shows "int (length (cells w h)) = 3 * w * h"
  using assms by (simp add: cells_def)

lemma set_cells:
  "set (cells w h) = {(y, x, c). 0 \<le> y \<and> y < h \<and> 0 \<le> x \<and> x < w \<and> 0 \<le> c \<and> c < 3}"
  by (auto simp: cells_def)

lemma distinct_cells: "distinct (cells w h)"
  by (simp add: cells_def distinct_product)

lemma card_mismatches:
  "card {(y, x, c). 0 \<le> y \<and> y < h \<and> 0 \<le> x \<and> x < w \<and> 0 \<le> c \<and> c < 3
          \<and> mismatch tolerance result reference w (y, x, c)}
   = length (filter (mismatch tolerance result reference w) (cells w h))"
proof -
  have "{(y, x, c). 0 \<le> y \<and> y < h \<and> 0 \<le> x \<and> x < w \<and> 0 \<le> c \<and> c < 3
          \<and> mismatch tolerance result reference w (y, x, c)}
      = set (filter (mismatch tolerance result reference w) (cells w h))"
    by (auto simp: set_cells)
  moreover have "card (set (filter (mismatch tolerance result reference w) (cells w h)))
      = length (filter (mismatch tolerance result reference w) (cells w h))"
    by (rule distinct_card) (simp add: distinct_cells)
  ultimately show ?thesis by (simp only:)
qed

lemma check_results_eq:
  assumes "0 \<le> w" "0 \<le> h"
    and "4 * w * h \<le> int (length result)" "4 * w * h \<le> int (length reference)"
    and "4 * w * h < 2 ^ 31"
  shows "check_results tolerance result reference w h =
     Some \<lparr> errors = of_nat (length (filter (mismatch tolerance result reference w) (cells w h))),
            printed = (if filter (mismatch tolerance result reference w) (cells w h) = []
                       then [VerificationPassed]
                       else [VerificationFailed]
                            @ map (mismatch_line result reference w)
                                (take 8 (filter (mismatch tolerance result reference w) (cells w h)))
                            @ [TotalErrors (of_nat (length (filter
                                  (mismatch tolerance result reference w) (cells w h))))]) \<rparr>"
proof -
  let ?ms = "filter (mismatch tolerance result reference w) (cells w h)"
  define p where "p = w * h"
  have "0 \<le> p" using assms(1,2) by (simp add: p_def)
  moreover have "4 * p < 2 ^ 31" using assms(5) by (simp add: p_def mult.assoc)
  ultimately have "3 * p < 2 ^ 32" by simp
  moreover have "int (length (cells w h)) = 3 * p"
    using length_cells[OF assms(1,2)] by (simp add: p_def mult.assoc)
  ultimately have "int (length (cells w h)) < 2 ^ 32" by simp
  then have len: "length (cells w h) < 2 ^ 32" by simp
  have "length ?ms \<le> length (cells w h)" by (rule length_filter_le)
  then have lms: "length ?ms < 2 ^ 32" using len by (rule le_less_trans)
  show ?thesis
    unfolding check_results_def check_loops[OF assms(3,4)] foldl_check_step[OF len]
    by (simp add: of_nat32_eq_0[OF lms])
qed

lemma for_loop_noop:
  assumes "\<And>k. i \<le> k \<Longrightarrow> k < n \<Longrightarrow> body k s = Some s"
  shows "for_loop i n body s = Some s"
  using for_loop_rule[of "\<lambda>_ t. t = s" i s n body] assms by auto

lemma index_inj:
  fixes x y x0 y0 c c0 w :: int
  assumes "0 \<le> x" "x < w" "0 \<le> c" "c < 4" "0 \<le> x0" "x0 < w" "0 \<le> c0" "c0 < 4"
    and eq: "(x + y * w) * 4 + c = (x0 + y0 * w) * 4 + c0"
  shows "x = x0 \<and> y = y0 \<and> c = c0"
proof -
  note d = decode_index[OF assms(1-4), of y] and d0 = decode_index[OF assms(5-8), of y0]
  have "c = c0" using d(2) d0(2) eq by simp
  moreover have p: "x + y * w = x0 + y0 * w" using d(1) d0(1) eq by simp
  moreover have "x = x0" using d(3) d0(3) p by simp
  moreover have "y = y0" using d(4) d0(4) p by simp
  ultimately show ?thesis by simp
qed

lemma enqueue_loop_eq:
  "enqueue_loop i iterations cmd queue = queue @ replicate (unat iterations - unat i) cmd"
proof (induction i iterations cmd queue rule: enqueue_loop.induct)
  case (1 i iterations cmd queue)
  show ?case
  proof (cases "i < iterations")
    case False
    then have "unat iterations - unat i = 0" by (simp add: word_less_nat_alt)
    then show ?thesis using False by (simp add: enqueue_loop.simps)
  next
    case True
    then have lt: "unat i < unat iterations" by (simp add: word_less_nat_alt)
    moreover have "unat iterations < 2 ^ 32" using unsigned_less[of iterations] by simp
    ultimately have "unat i + 1 < 2 ^ 32" by simp
    then have "unat (i + 1) = unat i + 1" by (simp add: unat_word_ariths)
    then have "unat iterations - unat i = Suc (unat iterations - unat (i + 1))" using lt by simp
    then have "replicate (unat iterations - unat i) cmd
        = cmd # replicate (unat iterations - unat (i + 1)) cmd" by simp
    then show ?thesis
      using True "1.IH"[OF True] by (subst enqueue_loop.simps) simp
  qed
qed

text \<open>
  Claim C2.  For two images of the same dimensions (buffers of at least \<open>4*W*H\<close> bytes,
  a size that fits a C \<open>int\<close>), the loop ends with \<open>errors\<close> equal to the number of cells
  \<open>(y, x, c)\<close>, \<open>c \<in> {R, G, B}\<close>, whose bytes differ by more than the tolerance; the alpha
  channel is not among the cells.  In particular, when the two images differ in one byte
  only, a colour channel of one pixel, and by exactly 2 there, the count is 1 with
  tolerance 1 and 0 with tolerance 2.
\<close>

theorem verifier_count:
  assumes "0 \<le> w" "0 \<le> h"
    and "4 * w * h \<le> int (length result)" "4 * w * h \<le> int (length reference)"
    and "4 * w * h < 2 ^ 31"
  shows "(\<exists>st. check_results tolerance result reference w h = Some st \<and>
            unat (errors st)
              = card {(y, x, c). 0 \<le> y \<and> y < h \<and> 0 \<le> x \<and> x < w \<and> 0 \<le> c \<and> c < 3
                        \<and> mismatch tolerance result reference w (y, x, c)}) \<and>
         (0 \<le> x0 \<and> x0 < w \<and> 0 \<le> y0 \<and> y0 < h \<and> 0 \<le> c0 \<and> c0 < 3 \<and>
          reference = result[nat ((x0 + y0 * w) * 4 + c0) := v] \<and>
          \<bar>uint v - uint (result ! nat ((x0 + y0 * w) * 4 + c0))\<bar> = 2 \<longrightarrow>
            (\<exists>st. check_results 1 result reference w h = Some st \<and> unat (errors st) = 1) \<and>
            (\<exists>st. check_results 2 result reference w h = Some st \<and> unat (errors st) = 0))"
proof -
  define p where "p = w * h"
  have "0 \<le> p" using assms(1,2) by (simp add: p_def)
  moreover have "4 * p < 2 ^ 31" using assms(5) by (simp add: p_def mult.assoc)
  ultimately have "3 * p < 2 ^ 32" by simp
  moreover have "int (length (cells w h)) = 3 * p"
    using length_cells[OF assms(1,2)] by (simp add: p_def mult.assoc)
  ultimately have "int (length (cells w h)) < 2 ^ 32" by simp
  then have len: "length (cells w h) < 2 ^ 32" by simp
  have count: "\<exists>st. check_results t result reference w h = Some st \<and>
      unat (errors st) = card {(y, x, c). 0 \<le> y \<and> y < h \<and> 0 \<le> x \<and> x < w \<and> 0 \<le> c \<and> c < 3
                        \<and> mismatch t result reference w (y, x, c)}" for t
  proof -
    have "length (filter (mismatch t result reference w) (cells w h)) \<le> length (cells w h)"
      by (rule length_filter_le)
    then have "length (filter (mismatch t result reference w) (cells w h)) < 2 ^ 32"
      using len by (rule le_less_trans)
    then show ?thesis
      unfolding card_mismatches
      by (simp add: check_results_eq[OF assms] unat_of_nat32)
  qed
  have single: "(\<exists>st. check_results 1 result reference w h = Some st \<and> unat (errors st) = 1) \<and>
            (\<exists>st. check_results 2 result reference w h = Some st \<and> unat (errors st) = 0)"
    if xy: "0 \<le> x0" "x0 < w" "0 \<le> y0" "y0 < h" and c0: "0 \<le> c0" "c0 < 3"
      and upd: "reference = result[nat ((x0 + y0 * w) * 4 + c0) := v]"
      and two: "\<bar>uint v - uint (result ! nat ((x0 + y0 * w) * 4 + c0))\<bar> = 2"
  proof -
    have diff: "\<bar>uint (reference ! nat ((x + y * w) * 4 + c)) - uint (result ! nat ((x + y * w) * 4 + c))\<bar>
        = (if (y, x, c) = (y0, x0, c0) then 2 else 0)"
      if "0 \<le> y" "y < h" "0 \<le> x" "x < w" "0 \<le> c" "c < 3" for x y c
    proof -
      have b: "0 \<le> (x + y * w) * 4 + c" "(x + y * w) * 4 + c < int (length result)"
        using channel_index_bounds[OF that(3,4,1,2,5) _ assms(3)] that(6) by simp_all
      have b0: "0 \<le> (x0 + y0 * w) * 4 + c0"
        using channel_index_bounds(1)[OF xy c0(1) _ assms(3)] c0(2) by simp
      show ?thesis
      proof (cases "(y, x, c) = (y0, x0, c0)")
        case True
        then show ?thesis using two b by (simp add: upd)
      next
        case False
        then have "(x + y * w) * 4 + c \<noteq> (x0 + y0 * w) * 4 + c0"
          using index_inj[of x w c x0 c0 y y0] that xy c0 by auto
        then have "nat ((x + y * w) * 4 + c) \<noteq> nat ((x0 + y0 * w) * 4 + c0)"
          using b(1) b0 by simp
        then show ?thesis using False by (simp add: upd)
      qed
    qed
    have e1: "{(y, x, c). 0 \<le> y \<and> y < h \<and> 0 \<le> x \<and> x < w \<and> 0 \<le> c \<and> c < 3
              \<and> mismatch 1 result reference w (y, x, c)} = {(y0, x0, c0)}"
      using diff xy c0 by (auto simp: mismatch_def split: if_splits)
    have e2: "{(y, x, c). 0 \<le> y \<and> y < h \<and> 0 \<le> x \<and> x < w \<and> 0 \<le> c \<and> c < 3
              \<and> mismatch 2 result reference w (y, x, c)} = {}"
      using diff by (auto simp: mismatch_def split: if_splits)
    from count[of 1] obtain s1 where s1: "check_results 1 result reference w h = Some s1"
      "unat (errors s1) = card {(y0, x0, c0)}" unfolding e1 by blast
    from count[of 2] obtain s2 where s2: "check_results 2 result reference w h = Some s2"
      "unat (errors s2) = card ({} :: (int \<times> int \<times> int) set)" unfolding e2 by blast
    show ?thesis using s1 s2 by simp
  qed
  show ?thesis using count[of tolerance] single by blast
qed

theorem verifier_count_witness:
  "(\<exists>st. check_results 1 [1, 2, 3, 4, 5, 6, 7, 8] [1, 2, 3, 4, 5, 8, 7, 8] 2 1 = Some st
        \<and> unat (errors st) = 1) \<and>
   (\<exists>st. check_results 2 [1, 2, 3, 4, 5, 6, 7, 8] [1, 2, 3, 4, 5, 8, 7, 8] 2 1 = Some st
        \<and> unat (errors st) = 0)"
proof -
  have dims: "(0 :: int) \<le> 2" "(0 :: int) \<le> 1"
    "4 * 2 * 1 \<le> int (length [1, 2, 3, 4, 5, 6, 7, 8 :: u8])"
    "4 * 2 * 1 \<le> int (length [1, 2, 3, 4, 5, 8, 7, 8 :: u8])"
    "4 * 2 * 1 < (2 :: int) ^ 31"
    by simp_all
  have single: "0 \<le> (1 :: int) \<and> (1 :: int) < 2 \<and> 0 \<le> (0 :: int) \<and> (0 :: int) < 1 \<and>
      0 \<le> (1 :: int) \<and> (1 :: int) < 3 \<and>
      [1, 2, 3, 4, 5, 8, 7, 8] = [1, 2, 3, 4, 5, 6, 7, 8][nat ((1 + 0 * 2) * 4 + 1) := (8 :: u8)] \<and>
      \<bar>uint (8 :: u8) - uint ([1, 2, 3, 4, 5, 6, 7, 8 :: u8] ! nat ((1 + 0 * 2) * 4 + 1))\<bar> = 2"
    by code_simp
  from verifier_count[OF dims, where tolerance = 1 and ?x0.0 = 1 and ?y0.0 = 0
        and ?c0.0 = 1 and v = 8]
  show ?thesis using single by blast
qed

text \<open>
  Claim C8, as the code has it.  The loop prints a detail line for each of the first 8
  mismatches, in the order of the scan, and for no other.  The total count is printed
  only when it is not zero, as the last line, after the heading \<open>Verification failed:\<close>
  and the detail lines; when the count is zero the only line printed is
  \<open>Verification passed.\<close>, and no count.
\<close>

theorem verifier_report:
  assumes "0 \<le> w" "0 \<le> h"
    and "4 * w * h \<le> int (length result)" "4 * w * h \<le> int (length reference)"
    and "4 * w * h < 2 ^ 31"
  shows "\<exists>st. check_results tolerance result reference w h = Some st \<and>
           unat (errors st) = length (filter (mismatch tolerance result reference w) (cells w h)) \<and>
           printed st =
             (if filter (mismatch tolerance result reference w) (cells w h) = []
              then [VerificationPassed]
              else [VerificationFailed]
                   @ map (mismatch_line result reference w)
                       (take 8 (filter (mismatch tolerance result reference w) (cells w h)))
                   @ [TotalErrors (errors st)])"
proof -
  define p where "p = w * h"
  have "0 \<le> p" using assms(1,2) by (simp add: p_def)
  moreover have "4 * p < 2 ^ 31" using assms(5) by (simp add: p_def mult.assoc)
  ultimately have "3 * p < 2 ^ 32" by simp
  moreover have "int (length (cells w h)) = 3 * p"
    using length_cells[OF assms(1,2)] by (simp add: p_def mult.assoc)
  ultimately have "int (length (cells w h)) < 2 ^ 32" by simp
  then have len: "length (cells w h) < 2 ^ 32" by simp
  have "length (filter (mismatch tolerance result reference w) (cells w h)) \<le> length (cells w h)"
    by (rule length_filter_le)
  then have "length (filter (mismatch tolerance result reference w) (cells w h)) < 2 ^ 32"
    using len by (rule le_less_trans)
  then show ?thesis
    by (simp add: check_results_eq[OF assms] unat_of_nat32)
qed

theorem verifier_report_witness:
  "\<exists>st. check_results 1 [0, 0, 0, 0, 0, 0, 0, 0, 0, 0, 0, 0] [9, 9, 9, 0, 9, 9, 9, 0, 9, 9, 9, 0] 3 1
      = Some st \<and>
      unat (errors st) = 9 \<and>
      printed st = [VerificationFailed,
        Mismatch 0 0 0 0 9, Mismatch 0 0 1 0 9, Mismatch 0 0 2 0 9,
        Mismatch 1 0 0 0 9, Mismatch 1 0 1 0 9, Mismatch 1 0 2 0 9,
        Mismatch 2 0 0 0 9, Mismatch 2 0 1 0 9, TotalErrors 9]"
proof -
  have c: "cells 3 1 = [(0, 0, 0), (0, 0, 1), (0, 0, 2), (0, 1, 0), (0, 1, 1), (0, 1, 2),
      (0, 2, 0), (0, 2, 1), (0, 2, 2)]"
    by (simp add: cells_def upto.simps)
  from verifier_report[of 3 1 "[0, 0, 0, 0, 0, 0, 0, 0, 0, 0, 0, 0]"
      "[9, 9, 9, 0, 9, 9, 9, 0, 9, 9, 9, 0]" 1]
  obtain st where st: "check_results 1 [0, 0, 0, 0, 0, 0, 0, 0, 0, 0, 0, 0]
        [9, 9, 9, 0, 9, 9, 9, 0, 9, 9, 9, 0] 3 1 = Some st"
    "unat (errors st) = 9"
    "printed st = [VerificationFailed,
        Mismatch 0 0 0 0 9, Mismatch 0 0 1 0 9, Mismatch 0 0 2 0 9,
        Mismatch 1 0 0 0 9, Mismatch 1 0 1 0 9, Mismatch 1 0 2 0 9,
        Mismatch 2 0 0 0 9, Mismatch 2 0 1 0 9, TotalErrors (errors st)]"
    by (auto simp: c mismatch_def mismatch_line_def)
  moreover have "errors st = word_of_nat (unat (errors st))" by simp
  then have "errors st = 9" by (simp only: st(2)) simp
  ultimately show ?thesis by simp
qed

text \<open>
  The claim as stated says that a final total is always printed.  On two equal images
  the loop prints \<open>Verification passed.\<close> and nothing else.
\<close>

theorem verifier_report_counterexample:
  "check_results 1 [10, 20, 30, 40] [10, 20, 30, 40] 1 1
     = Some \<lparr> errors = 0, printed = [VerificationPassed] \<rparr>"
  by (simp add: check_results_def for_loop.simps check_channel_def rd_def)

section \<open>Degenerate dimensions\<close>

text \<open>
  Claim C10.  With \<open>width \<le> 0\<close> or \<open>height \<le> 0\<close>, \<open>runReference\<close> returns with the output
  buffer as it was, whatever the buffers are: it returns on the empty input buffer, where
  any read would fail, so it reads nothing.  The verification loop over such dimensions
  ends with \<open>errors = 0\<close> and prints \<open>Verification passed.\<close>.  All functions of the model
  are total, so both loops terminate.
\<close>

theorem degenerate_dimensions:
  assumes "w \<le> 0 \<or> h \<le> 0"
  shows "runReference ops sigmaDomain sigmaRange input out w h = Some out \<and>
         check_results tolerance result reference w h
           = Some \<lparr> errors = 0, printed = [VerificationPassed] \<rparr>"
proof -
  have row: "for_loop 0 w body s = Some s" if "w \<le> 0" for body :: "int \<Rightarrow> 's \<Rightarrow> 's option" and s
    using that by (simp add: for_loop_done)
  have loops: "for_loop 0 h (\<lambda>y. for_loop 0 w (body y)) s = Some s"
    for body :: "int \<Rightarrow> int \<Rightarrow> 's \<Rightarrow> 's option" and s
  proof (cases "h \<le> 0")
    case True
    then show ?thesis by (simp add: for_loop_done)
  next
    case False
    then have "w \<le> 0" using assms by simp
    then show ?thesis by (intro for_loop_noop) (simp add: for_loop_done)
  qed
  show ?thesis
    by (simp add: runReference_def check_results_def loops)
qed

theorem degenerate_dimensions_witness:
  "runReference real_arith 3 (1 / 5) [] [7, 7, 7, 7] 0 5 = Some [7, 7, 7, 7] \<and>
   check_results 1 [] [] 0 5 = Some \<lparr> errors = 0, printed = [VerificationPassed] \<rparr> \<and>
   runReference real_arith 3 (1 / 5) [] [] 4 (- 1) = Some [] \<and>
   check_results 1 [] [] 4 (- 1) = Some \<lparr> errors = 0, printed = [VerificationPassed] \<rparr>"
  using degenerate_dimensions[of 0 5 real_arith 3 "1 / 5" "[]" "[7, 7, 7, 7]" 1 "[]" "[]"]
    degenerate_dimensions[of 4 "- 1" real_arith 3 "1 / 5" "[]" "[]" 1 "[]" "[]"]
  by simp

section \<open>The benchmark loop: how many invocations\<close>

text \<open>
  Claim C9, as the code has it.  For every value of \<open>iterations\<close> the loop issues exactly
  \<open>iterations\<close> kernel invocations, each with the same input image, output image and
  sigmas, followed by \<open>queue.finish()\<close>.  The body runs at least once exactly when
  \<open>iterations\<close> is not zero.  The total is the timer difference times \<open>1e-3\<close>, and the
  per-frame figure is the \<open>double\<close> quotient of the total and \<open>iterations\<close>.
\<close>

theorem benchmark_loop:
  "issued (benchmark dops iterations input out sigmaDomain sigmaRange startTime endTime)
     = replicate (unat iterations) (Kernel input out sigmaDomain sigmaRange) @ [Finish] \<and>
   length (filter is_kernel
       (issued (benchmark dops iterations input out sigmaDomain sigmaRange startTime endTime)))
     = unat iterations \<and>
   (1 \<le> length (filter is_kernel
       (issued (benchmark dops iterations input out sigmaDomain sigmaRange startTime endTime)))
     \<longleftrightarrow> iterations \<noteq> 0) \<and>
   total (benchmark dops iterations input out sigmaDomain sigmaRange startTime endTime)
     = dmul dops (d_of_u64 dops (endTime - startTime)) (milli dops) \<and>
   per_frame (benchmark dops iterations input out sigmaDomain sigmaRange startTime endTime)
     = ddiv dops (total (benchmark dops iterations input out sigmaDomain sigmaRange startTime endTime))
         (d_of_u32 dops iterations)"
proof -
  have "filter is_kernel (replicate n (Kernel input out sigmaDomain sigmaRange) @ [Finish])
      = replicate n (Kernel input out sigmaDomain sigmaRange)" for n
    by (induction n) (simp_all add: is_kernel_def)
  moreover have "1 \<le> unat iterations \<longleftrightarrow> iterations \<noteq> 0"
    by (metis One_nat_def Suc_le_eq unat_gt_0)
  ultimately show ?thesis
    by (simp add: benchmark_def enqueue_loop_eq Let_def)
qed

theorem benchmark_loop_witness:
  "issued (benchmark real_darith 3 ''input'' ''output'' (3 :: real) (1 / 5) 0 1000)
     = [Kernel ''input'' ''output'' 3 (1 / 5), Kernel ''input'' ''output'' 3 (1 / 5),
        Kernel ''input'' ''output'' 3 (1 / 5), Finish]"
proof -
  have u: "unat (3 :: 32 word) = Suc (Suc (Suc 0))" by simp
  from benchmark_loop[of real_darith 3 "''input''" "''output''" "3 :: real" "1 / 5" 0 1000]
  have "issued (benchmark real_darith 3 ''input'' ''output'' (3 :: real) (1 / 5) 0 1000)
     = replicate (unat (3 :: 32 word)) (Kernel ''input'' ''output'' 3 (1 / 5)) @ [Finish]"
    by (rule conjunct1)
  then show ?thesis by (simp only: u replicate.simps append.simps)
qed

text \<open>
  The claim as stated says that the loop body runs at least once for every iteration
  count.  With \<open>iterations = 0\<close> no kernel invocation is issued.
\<close>

theorem benchmark_loop_counterexample:
  "\<not> 1 \<le> length (filter is_kernel
      (issued (benchmark real_darith 0 ''input'' ''output'' (3 :: real) (1 / 5) 0 1000)))"
  by (simp add: benchmark_def enqueue_loop.simps is_kernel_def Let_def)

end
